theory Spec2Isabelle
  imports Complex_Main "HOL-Library.Sublist"
begin

section \<open>Python strings\<close>

text \<open>
  A Python \<open>str\<close> is a sequence of code points. The model takes the code points below
  256, so that a \<open>char\<close> is one code point of the Latin-1 range and \<open>of_char\<close> reads
  its number. The three string methods that \<open>normalize_text\<close> calls are written out for
  that range: \<open>str.lower\<close> changes the letters A-Z and the Latin-1 capitals
  (192-222 without the multiplication sign 215), and \<open>str.strip\<close> and \<open>str.split\<close>
  without an argument take as whitespace the code points 9-13, 28-32, 133 and 160.
\<close>

definition char_lower :: "char \<Rightarrow> char" where
  "char_lower c =
     (let n = (of_char c :: nat)
      in if (65 \<le> n \<and> n \<le> 90) \<or> (192 \<le> n \<and> n \<le> 222 \<and> n \<noteq> 215)
         then char_of (n + 32) else c)"

definition str_lower :: "string \<Rightarrow> string" where
  "str_lower s = map char_lower s"

definition is_space :: "char \<Rightarrow> bool" where
  "is_space c =
     (let n = (of_char c :: nat)
      in (9 \<le> n \<and> n \<le> 13) \<or> (28 \<le> n \<and> n \<le> 32) \<or> n = 133 \<or> n = 160)"

definition str_strip :: "string \<Rightarrow> string" where
  "str_strip s = rev (dropWhile is_space (rev (dropWhile is_space s)))"

text \<open>
  \<open>s.replace(old, new)\<close> replaces the occurrences of \<open>old\<close> from left to right, without
  overlap. An empty \<open>old\<close> matches before every character and at the end.
\<close>

fun str_replace :: "string \<Rightarrow> string \<Rightarrow> string \<Rightarrow> string" where
  "str_replace [] new s = new @ concat (map (\<lambda>c. c # new) s)"
| "str_replace (p # ps) new [] = []"
| "str_replace (p # ps) new (c # cs) =
     (if prefix (p # ps) (c # cs)
      then new @ str_replace (p # ps) new (drop (length ps) cs)
      else c # str_replace (p # ps) new cs)"

text \<open>
  \<open>s.split()\<close>: the maximal runs of characters that are not whitespace, in order.
  The first argument is the word being read.
\<close>

fun split_from :: "string \<Rightarrow> string \<Rightarrow> string list" where
  "split_from w [] = (if w = [] then [] else [w])"
| "split_from w (c # cs) =
     (if is_space c
      then (if w = [] then split_from [] cs else w # split_from [] cs)
      else split_from (w @ [c]) cs)"

definition str_split :: "string \<Rightarrow> string list" where
  "str_split s = split_from [] s"

text \<open>\<open>sep.join(ws)\<close>\<close>

fun str_join :: "string \<Rightarrow> string list \<Rightarrow> string" where
  "str_join sep [] = []"
| "str_join sep [w] = w"
| "str_join sep (w # v # ws) = w @ sep @ str_join sep (v # ws)"

section \<open>normalize_text\<close>

text \<open>
  The argument is \<open>None\<close> where \<open>pd.isna(s)\<close> holds (a missing cell) and \<open>Some\<close> of the
  text \<open>str(s)\<close> otherwise. The loop over the seven tokens is a left fold.
\<close>

definition stop_tokens :: "string list" where
  "stop_tokens = [''.'', '','', ''&'', ''ltd'', ''pvt'', ''online'', ''india'']"

definition replace_tokens :: "string list \<Rightarrow> string \<Rightarrow> string" where
  "replace_tokens toks s = foldl (\<lambda>s ch. str_replace ch '' '' s) s toks"

definition normalize_text :: "string option \<Rightarrow> string" where
  "normalize_text x =
     (case x of
        None \<Rightarrow> []
      | Some s0 \<Rightarrow>
          (let s = str_strip (str_lower s0);
               s = replace_tokens stop_tokens s;
               s = str_join '' '' (str_split s)
           in s))"

section \<open>The contract of normalize_text as the specification words it\<close>

text \<open>
  The specification describes the result as the lowercased, trimmed text with the stop
  tokens removed and the internal runs of whitespace collapsed to single spaces.
  \<open>normalize_text_spec\<close> follows these words: \<open>remove_tokens\<close> deletes the occurrences
  of each token in turn, and \<open>collapse_runs\<close> puts one space for every maximal run of
  whitespace. The text is trimmed before and after the removal, so that the result has
  no whitespace at either end.
\<close>

definition remove_tokens :: "string list \<Rightarrow> string \<Rightarrow> string" where
  "remove_tokens toks s = foldl (\<lambda>s ch. str_replace ch [] s) s toks"

fun collapse_runs :: "string \<Rightarrow> string" where
  "collapse_runs [] = []"
| "collapse_runs [c] = [if is_space c then CHR '' '' else c]"
| "collapse_runs (c # d # cs) =
     (if is_space c
      then (if is_space d then collapse_runs (d # cs) else CHR '' '' # collapse_runs (d # cs))
      else c # collapse_runs (d # cs))"

definition normalize_text_spec :: "string option \<Rightarrow> string" where
  "normalize_text_spec x =
     (case x of
        None \<Rightarrow> []
      | Some s \<Rightarrow>
          collapse_runs (str_strip (remove_tokens stop_tokens (str_strip (str_lower s)))))"

text \<open>
  Notions for the proofs about \<open>normalize_text\<close>: a word of \<open>split\<close> is not empty and has
  no whitespace; a lowered string is one that \<open>lower\<close> leaves as it is.
\<close>

definition is_word :: "string \<Rightarrow> bool" where
  "is_word w = (w \<noteq> [] \<and> (\<forall>c \<in> set w. \<not> is_space c))"

definition lowered :: "string \<Rightarrow> bool" where
  "lowered s = (\<forall>c \<in> set s. char_lower c = c)"

section \<open>Python floats\<close>

text \<open>
  A Python \<open>float\<close> is an IEEE binary64 number. The model takes the finite ones, each as
  the rational number it stands for, and writes the rounding out: every operation on
  floats is the exact operation followed by \<open>float64\<close>, the rounding to the nearest number
  with a significand of 53 bits, a tie going to the even significand. The range of the
  exponent is not bounded: overflow to an infinity and the denormal numbers are outside
  the model, and so are infinities and NaN as inputs.
\<close>

text \<open>Python's \<open>round(x)\<close> with one argument: to the nearest integer, a tie to the even one.\<close>

definition py_round :: "rat \<Rightarrow> int" where
  "py_round x =
     (let f = \<lfloor>x\<rfloor>; d = x - of_int f
      in if d < 1 / 2 then f else if 1 / 2 < d then f + 1 else if even f then f else f + 1)"

function bit_length :: "int \<Rightarrow> nat" where
  "bit_length n = (if n \<le> 0 then 0 else Suc (bit_length (n div 2)))"
  by pat_completeness auto
termination
  by (relation "measure nat") auto

definition pow2 :: "int \<Rightarrow> rat" where
  "pow2 e = (if 0 \<le> e then 2 ^ nat e else 1 / 2 ^ nat (- e))"

text \<open>
  For \<open>x \<noteq> 0\<close>, \<open>e\<close> is the exponent with \<open>2 ^ e \<le> |x| < 2 ^ (e + 1)\<close>, found from the bit
  lengths of the numerator and the denominator, and \<open>ulp\<close> is the distance between
  neighbouring floats of that exponent.
\<close>

definition float64 :: "rat \<Rightarrow> rat" where
  "float64 x =
     (if x = 0 then 0
      else
        (let (a, b) = quotient_of \<bar>x\<bar>;
             d = int (bit_length a) - int (bit_length b);
             e = (if \<bar>x\<bar> < pow2 d then d - 1 else d);
             ulp = pow2 (e - 52)
         in of_int (py_round (x / ulp)) * ulp))"

text \<open>The operators \<open>+\<close>, \<open>-\<close>, \<open>*\<close> and \<open>/\<close> on floats.\<close>

definition fadd :: "rat \<Rightarrow> rat \<Rightarrow> rat" where
  "fadd x y = float64 (x + y)"

definition fsub :: "rat \<Rightarrow> rat \<Rightarrow> rat" where
  "fsub x y = float64 (x - y)"

definition fmul :: "rat \<Rightarrow> rat \<Rightarrow> rat" where
  "fmul x y = float64 (x * y)"

definition fdiv :: "rat \<Rightarrow> rat \<Rightarrow> rat" where
  "fdiv x y = float64 (x / y)"

section \<open>similarity\<close>

text \<open>
  \<open>similarity a b\<close> is \<open>SequenceMatcher(None, a, b).ratio()\<close> of Python's \<open>difflib\<close>,
  with no junk predicate and with the automatic junk heuristic on. \<open>b2j b elt\<close> is the
  list of the positions of \<open>elt\<close> in \<open>b\<close>, which is empty for an element that the
  heuristic finds popular: one that occurs more than \<open>n // 100 + 1\<close> times in a \<open>b\<close> of
  length \<open>n \<ge> 200\<close>.
\<close>

definition b2j :: "string \<Rightarrow> char \<Rightarrow> nat list" where
  "b2j b elt =
     (let idxs = filter (\<lambda>i. b ! i = elt) [0..<length b]; n = length b
      in if 200 \<le> n \<and> n div 100 + 1 < length idxs then [] else idxs)"

text \<open>
  \<open>find_longest_match\<close>: the loop over \<open>i\<close> in \<open>range(alo, ahi)\<close> (\<open>flm_rows\<close>) with its
  inner loop over the positions \<open>j\<close> of \<open>a[i]\<close> in \<open>b\<close> (\<open>flm_row\<close>), then the two
  loops that extend the best block over equal elements on each side. The set of junk
  elements is empty, so the last two loops of the source, which extend over junk, never
  run their body.
\<close>

fun flm_row ::
  "(nat \<rightharpoonup> nat) \<Rightarrow> nat \<Rightarrow> nat \<Rightarrow> nat \<Rightarrow> nat list \<Rightarrow>
   (nat \<rightharpoonup> nat) \<times> nat \<times> nat \<times> nat \<Rightarrow> (nat \<rightharpoonup> nat) \<times> nat \<times> nat \<times> nat" where
  "flm_row j2len i blo bhi [] st = st"
| "flm_row j2len i blo bhi (j # js) (newj2len, besti, bestj, bestsize) =
     (if j < blo then flm_row j2len i blo bhi js (newj2len, besti, bestj, bestsize)
      else if bhi \<le> j then (newj2len, besti, bestj, bestsize)
      else
        (let k = (case (if j = 0 then None else j2len (j - 1)) of None \<Rightarrow> 0 | Some v \<Rightarrow> v) + 1;
             newj2len = newj2len(j \<mapsto> k)
         in if bestsize < k
            then flm_row j2len i blo bhi js (newj2len, i + 1 - k, j + 1 - k, k)
            else flm_row j2len i blo bhi js (newj2len, besti, bestj, bestsize)))"

fun flm_rows ::
  "string \<Rightarrow> string \<Rightarrow> nat \<Rightarrow> nat \<Rightarrow> nat list \<Rightarrow>
   (nat \<rightharpoonup> nat) \<times> nat \<times> nat \<times> nat \<Rightarrow> nat \<times> nat \<times> nat" where
  "flm_rows a b blo bhi [] (j2len, best) = best"
| "flm_rows a b blo bhi (i # is) (j2len, best) =
     flm_rows a b blo bhi is (flm_row j2len i blo bhi (b2j b (a ! i)) (Map.empty, best))"

function extend_left ::
  "string \<Rightarrow> string \<Rightarrow> nat \<Rightarrow> nat \<Rightarrow> nat \<times> nat \<times> nat \<Rightarrow> nat \<times> nat \<times> nat" where
  "extend_left a b alo blo (besti, bestj, bestsize) =
     (if alo < besti \<and> blo < bestj \<and> a ! (besti - 1) = b ! (bestj - 1)
      then extend_left a b alo blo (besti - 1, bestj - 1, bestsize + 1)
      else (besti, bestj, bestsize))"
  by pat_completeness auto
termination
  by (relation "measure (\<lambda>(a, b, alo, blo, besti, bestj, bestsize). besti)") auto

function extend_right ::
  "string \<Rightarrow> string \<Rightarrow> nat \<Rightarrow> nat \<Rightarrow> nat \<times> nat \<times> nat \<Rightarrow> nat \<times> nat \<times> nat" where
  "extend_right a b ahi bhi (besti, bestj, bestsize) =
     (if besti + bestsize < ahi \<and> bestj + bestsize < bhi \<and>
         a ! (besti + bestsize) = b ! (bestj + bestsize)
      then extend_right a b ahi bhi (besti, bestj, bestsize + 1)
      else (besti, bestj, bestsize))"
  by pat_completeness auto
termination
  by (relation "measure (\<lambda>(a, b, ahi, bhi, besti, bestj, bestsize). ahi - (besti + bestsize))") auto

definition find_longest_match ::
  "string \<Rightarrow> string \<Rightarrow> nat \<Rightarrow> nat \<Rightarrow> nat \<Rightarrow> nat \<Rightarrow> nat \<times> nat \<times> nat" where
  "find_longest_match a b alo ahi blo bhi =
     extend_right a b ahi bhi
       (extend_left a b alo blo
         (flm_rows a b blo bhi [alo..<ahi] (Map.empty, alo, blo, 0)))"

text \<open>
  \<open>ratio\<close> adds the sizes of the matching blocks and returns \<open>2.0 * matches / length\<close>,
  a product and a quotient of floats, or \<open>1.0\<close> for two empty sequences. \<open>get_matching_blocks\<close> takes the
  longest match of a region and then works on the regions left and right of it, which it
  keeps in a list of regions to do; the sum of the sizes does not depend on the order in
  which the regions are taken, and \<open>matching_size\<close> is that sum as a recursion.
\<close>

function matching_size :: "string \<Rightarrow> string \<Rightarrow> nat \<Rightarrow> nat \<Rightarrow> nat \<Rightarrow> nat \<Rightarrow> nat" where
  "matching_size a b alo ahi blo bhi =
     (case find_longest_match a b alo ahi blo bhi of
        (i, j, k) \<Rightarrow>
          if k = 0 then 0
          else k + (if alo < i \<and> blo < j then matching_size a b alo i blo j else 0)
                 + (if i + k < ahi \<and> j + k < bhi then matching_size a b (i + k) ahi (j + k) bhi else 0))"
  by pat_completeness auto

definition ratio :: "string \<Rightarrow> string \<Rightarrow> rat" where
  "ratio a b =
     (let matches = matching_size a b 0 (length a) 0 (length b);
          length = length a + length b
      in if length \<noteq> 0
         then fdiv (fmul 2 (float64 (of_nat matches))) (float64 (of_nat length))
         else 1)"

definition similarity :: "string \<Rightarrow> string \<Rightarrow> rat" where
  "similarity a b = ratio a b"


section \<open>reconcile\<close>

text \<open>
  A data frame is the list of its rows; its index is the default one of \<open>read_csv\<close>, the
  positions 0, 1, 2, ..., so that \<open>iterrows\<close> pairs every row with its position and
  \<open>df.at[i, col]\<close> and \<open>df.loc[i]\<close> read the row at position \<open>i\<close>. The columns
  \<open>Date\<close>, \<open>Amount\<close> and \<open>Vendor_clean\<close> are common to both frames. A date is
  a day number, so that \<open>(d1 - d2).days\<close> is a difference of integers. The column
  \<open>Amount\<close> holds floats, so that \<open>float(row['Amount'])\<close> is the value as it is stored, and
  the similarity, the threshold and the score are floats too. A missing raw vendor name is
  \<open>None\<close>.
\<close>

datatype error = ZeroDivisionError

record row =
  Date :: int
  Amount :: rat
  Vendor_clean :: string

record internal_row = row +
  Transaction_ID :: string
  Vendor :: "string option"

record bank_row = row +
  Bank_Ref :: string
  Vendor_Name :: "string option"

text \<open>
  One dictionary of the list \<open>matches\<close>. The keys \<open>Transaction_ID\<close> and \<open>Bank_Ref\<close>
  carry the prefix \<open>Match_\<close> here, the names without it being the columns of the inputs.
\<close>

record match_record =
  Match_Transaction_ID :: string
  Internal_Date :: int
  Internal_Amount :: rat
  Vendor_internal :: "string option"
  Match_Bank_Ref :: string
  Bank_Date :: int
  Bank_Amount :: rat
  Vendor_bank :: "string option"
  Vendor_similarity :: rat
  Amount_diff :: rat
  MatchType :: string

definition iterrows :: "'a list \<Rightarrow> (nat \<times> 'a) list" where
  "iterrows df = zip [0..<length df] df"

definition bucket_key :: "rat \<Rightarrow> int" where
  "bucket_key amt = py_round (fdiv amt 10)"

type_synonym buckets = "int \<rightharpoonup> (nat \<times> bank_row) list"

definition bucket_get :: "buckets \<Rightarrow> int \<Rightarrow> (nat \<times> bank_row) list" where
  "bucket_get bank_by_amount k = (case bank_by_amount k of None \<Rightarrow> [] | Some l \<Rightarrow> l)"

fun amount_buckets :: "(nat \<times> bank_row) list \<Rightarrow> buckets \<Rightarrow> buckets" where
  "amount_buckets [] bank_by_amount = bank_by_amount"
| "amount_buckets ((i, b) # rest) bank_by_amount =
     (let key = bucket_key (Amount b)
      in amount_buckets rest
           (bank_by_amount(key \<mapsto> bucket_get bank_by_amount key @ [(i, b)])))"

text \<open>
  The tuple \<open>best_match = (i, j, b, sim, amt_diff)\<close>, and the body of the loop over one
  bucket. The quotient \<open>amt_diff / (int_amt + 1)\<close> is a division of Python floats, which
  raises \<open>ZeroDivisionError\<close> when the divisor is zero.
\<close>

type_synonym best_match = "nat \<times> nat \<times> bank_row \<times> rat \<times> rat"

fun scan_bucket ::
  "nat \<Rightarrow> internal_row \<Rightarrow> nat set \<Rightarrow> int \<Rightarrow> rat \<Rightarrow> (nat \<times> bank_row) list \<Rightarrow>
   rat \<times> best_match option \<Rightarrow> error + rat \<times> best_match option" where
  "scan_bucket i row bank_idx_used date_tol_days sim_threshold [] st = Inr st"
| "scan_bucket i row bank_idx_used date_tol_days sim_threshold ((j, b) # rest)
     (best_score, best_match) =
     (if j \<in> bank_idx_used
      then scan_bucket i row bank_idx_used date_tol_days sim_threshold rest
             (best_score, best_match)
      else if \<bar>Date row - Date b\<bar> \<le> date_tol_days
      then
        (let int_amt = Amount row;
             sim = similarity (Vendor_clean row) (Vendor_clean b);
             amt_diff = \<bar>fsub int_amt (Amount b)\<bar>
         in if fadd int_amt 1 = 0 then Inl ZeroDivisionError
            else
              (let score = fsub sim (fmul (fdiv amt_diff (fadd int_amt 1)) (1 / 4))
               in if best_score < score \<and> sim_threshold \<le> sim
                  then scan_bucket i row bank_idx_used date_tol_days sim_threshold rest
                         (score, Some (i, j, b, sim, amt_diff))
                  else scan_bucket i row bank_idx_used date_tol_days sim_threshold rest
                         (best_score, best_match)))
      else scan_bucket i row bank_idx_used date_tol_days sim_threshold rest
             (best_score, best_match))"

fun scan_keys ::
  "nat \<Rightarrow> internal_row \<Rightarrow> nat set \<Rightarrow> int \<Rightarrow> rat \<Rightarrow> buckets \<Rightarrow> int list \<Rightarrow>
   rat \<times> best_match option \<Rightarrow> error + rat \<times> best_match option" where
  "scan_keys i row bank_idx_used date_tol_days sim_threshold bank_by_amount [] st = Inr st"
| "scan_keys i row bank_idx_used date_tol_days sim_threshold bank_by_amount (k # ks) st =
     (case scan_bucket i row bank_idx_used date_tol_days sim_threshold
             (bucket_get bank_by_amount k) st of
        Inl e \<Rightarrow> Inl e
      | Inr st' \<Rightarrow>
          scan_keys i row bank_idx_used date_tol_days sim_threshold bank_by_amount ks st')"

definition match_dict :: "internal_row list \<Rightarrow> best_match \<Rightarrow> match_record" where
  "match_dict internal_df best_match =
     (case best_match of
        (i_idx, j_idx, b_row, sim, amt_diff) \<Rightarrow>
          \<lparr>Match_Transaction_ID = Transaction_ID (internal_df ! i_idx),
           Internal_Date = Date (internal_df ! i_idx),
           Internal_Amount = Amount (internal_df ! i_idx),
           Vendor_internal = Vendor (internal_df ! i_idx),
           Match_Bank_Ref = Bank_Ref b_row,
           Bank_Date = Date b_row,
           Bank_Amount = Amount b_row,
           Vendor_bank = Vendor_Name b_row,
           Vendor_similarity = sim,
           Amount_diff = amt_diff,
           MatchType = ''Fuzzy''\<rparr>)"

text \<open>
  The loop over the rows of \<open>internal_df\<close>; its state is \<open>bank_idx_used\<close>, \<open>matches\<close> and
  \<open>unmatched_internal\<close>.
\<close>

fun reconcile_loop ::
  "internal_row list \<Rightarrow> buckets \<Rightarrow> int \<Rightarrow> rat \<Rightarrow> (nat \<times> internal_row) list \<Rightarrow>
   nat set \<times> match_record list \<times> nat list \<Rightarrow>
   error + nat set \<times> match_record list \<times> nat list" where
  "reconcile_loop internal_df bank_by_amount date_tol_days sim_threshold [] st = Inr st"
| "reconcile_loop internal_df bank_by_amount date_tol_days sim_threshold ((i, row) # rest)
     (bank_idx_used, matches, unmatched_internal) =
     (let key = bucket_key (Amount row);
          candidate_keys = [key - 1, key, key + 1]
      in case scan_keys i row bank_idx_used date_tol_days sim_threshold bank_by_amount
                candidate_keys (0, None) of
           Inl e \<Rightarrow> Inl e
         | Inr (best_score, best_match) \<Rightarrow>
             (case best_match of
                Some (i_idx, j_idx, b_row, sim, amt_diff) \<Rightarrow>
                  reconcile_loop internal_df bank_by_amount date_tol_days sim_threshold rest
                    (insert j_idx bank_idx_used,
                     matches @ [match_dict internal_df (i_idx, j_idx, b_row, sim, amt_diff)],
                     unmatched_internal)
              | None \<Rightarrow>
                  reconcile_loop internal_df bank_by_amount date_tol_days sim_threshold rest
                    (bank_idx_used, matches, unmatched_internal @ [i])))"

text \<open>
  The result is the triple of frames that \<open>reconcile\<close> returns: the matches (with a fresh
  index), and the unmatched rows of both inputs, each with its position in its input, as
  \<open>df.loc[...]\<close> keeps the index. The parameter \<open>amount_tol\<close> is taken and not used, as in
  the source.
\<close>

definition reconcile ::
  "internal_row list \<Rightarrow> bank_row list \<Rightarrow> int \<Rightarrow> rat \<Rightarrow> rat \<Rightarrow>
   error + match_record list \<times> (nat \<times> internal_row) list \<times> (nat \<times> bank_row) list" where
  "reconcile internal_df bank_df date_tol_days amount_tol sim_threshold =
     (let bank_by_amount = amount_buckets (iterrows bank_df) Map.empty
      in case reconcile_loop internal_df bank_by_amount date_tol_days sim_threshold
                (iterrows internal_df) ({}, [], []) of
           Inl e \<Rightarrow> Inl e
         | Inr (bank_idx_used, matches, unmatched_internal) \<Rightarrow>
             (let unmatched_bank = filter (\<lambda>i. i \<notin> bank_idx_used) [0..<length bank_df]
              in Inr (matches,
                      map (\<lambda>i. (i, internal_df ! i)) unmatched_internal,
                      map (\<lambda>i. (i, bank_df ! i)) unmatched_bank)))"

section \<open>Notions for the statements about reconcile\<close>

text \<open>
  The score that the loop computes, in floats, for an internal row \<open>t\<close> and a bank
  row \<open>b\<close>, and the dictionary it appends when it pairs them.
\<close>

definition score :: "internal_row \<Rightarrow> bank_row \<Rightarrow> rat" where
  "score t b =
     fsub (similarity (Vendor_clean t) (Vendor_clean b))
       (fmul (fdiv \<bar>fsub (Amount t) (Amount b)\<bar> (fadd (Amount t) 1)) (1 / 4))"

definition match_of :: "internal_row \<Rightarrow> bank_row \<Rightarrow> match_record" where
  "match_of t b =
     \<lparr>Match_Transaction_ID = Transaction_ID t,
      Internal_Date = Date t,
      Internal_Amount = Amount t,
      Vendor_internal = Vendor t,
      Match_Bank_Ref = Bank_Ref b,
      Bank_Date = Date b,
      Bank_Amount = Amount b,
      Vendor_bank = Vendor_Name b,
      Vendor_similarity = similarity (Vendor_clean t) (Vendor_clean b),
      Amount_diff = \<bar>fsub (Amount t) (Amount b)\<bar>,
      MatchType = ''Fuzzy''\<rparr>"

text \<open>
  \<open>in_buckets t b\<close>: the bank row lies in one of the three buckets searched for \<open>t\<close>.
  \<open>selectable\<close>: the bank row at position \<open>j\<close> can replace the running best at its start,
  \<open>(0, None)\<close>: it is not used, within the date tolerance, at least as similar as the
  threshold asks, and of positive score. \<open>best_of\<close> is the invariant of the scan: the
  running best is the first of the highest score among the selectable rows seen so far.
\<close>

definition in_buckets :: "internal_row \<Rightarrow> bank_row \<Rightarrow> bool" where
  "in_buckets t b =
     (let key = bucket_key (Amount t)
      in bucket_key (Amount b) = key - 1 \<or> bucket_key (Amount b) = key \<or>
         bucket_key (Amount b) = key + 1)"

definition selectable :: "internal_row \<Rightarrow> nat set \<Rightarrow> int \<Rightarrow> rat \<Rightarrow> nat \<times> bank_row \<Rightarrow> bool" where
  "selectable t used date_tol_days sim_threshold jb =
     (fst jb \<notin> used \<and> \<bar>Date t - Date (snd jb)\<bar> \<le> date_tol_days \<and>
      sim_threshold \<le> similarity (Vendor_clean t) (Vendor_clean (snd jb)) \<and>
      0 < score t (snd jb))"

definition best_of ::
  "nat \<Rightarrow> internal_row \<Rightarrow> nat set \<Rightarrow> int \<Rightarrow> rat \<Rightarrow> (nat \<times> bank_row) set \<Rightarrow>
   rat \<times> best_match option \<Rightarrow> bool" where
  "best_of i t used date_tol_days sim_threshold S st =
     (case snd st of
        None \<Rightarrow> fst st = 0 \<and> (\<forall>jb \<in> S. \<not> selectable t used date_tol_days sim_threshold jb)
      | Some (i', j, b, sim, amt_diff) \<Rightarrow>
          i' = i \<and> (j, b) \<in> S \<and> selectable t used date_tol_days sim_threshold (j, b) \<and>
          sim = similarity (Vendor_clean t) (Vendor_clean b) \<and>
          amt_diff = \<bar>fsub (Amount t) (Amount b)\<bar> \<and> fst st = score t b \<and>
          (\<forall>jb \<in> S. selectable t used date_tol_days sim_threshold jb \<longrightarrow>
             score t (snd jb) \<le> score t b))"

text \<open>
  \<open>candidate\<close>: a bank row in the searched buckets, within the date tolerance and at
  least as similar as the threshold asks.
\<close>

definition candidate :: "internal_row \<Rightarrow> int \<Rightarrow> rat \<Rightarrow> bank_row \<Rightarrow> bool" where
  "candidate t date_tol_days sim_threshold b =
     (in_buckets t b \<and> \<bar>Date t - Date b\<bar> \<le> date_tol_days \<and>
      sim_threshold \<le> similarity (Vendor_clean t) (Vendor_clean b))"

text \<open>A run on two internal and two bank transactions, used to instantiate the theorems.\<close>

definition example_internal :: "internal_row list" where
  "example_internal =
     [\<lparr>Date = 10, Amount = 1000, Vendor_clean = ''acme'', Transaction_ID = ''T1'',
       Vendor = Some ''Acme Ltd''\<rparr>,
      \<lparr>Date = 32, Amount = 500, Vendor_clean = ''zylo corp'', Transaction_ID = ''T2'',
       Vendor = Some ''Zylo Corp''\<rparr>]"

definition example_bank :: "bank_row list" where
  "example_bank =
     [\<lparr>Date = 11, Amount = 1000, Vendor_clean = ''acme'', Bank_Ref = ''B1'',
       Vendor_Name = Some ''ACME''\<rparr>,
      \<lparr>Date = 51, Amount = 500, Vendor_clean = ''zylo corp'', Bank_Ref = ''B2'',
       Vendor_Name = Some ''Zylo Corp''\<rparr>]"

definition example_match :: match_record where
  "example_match =
     \<lparr>Match_Transaction_ID = ''T1'', Internal_Date = 10, Internal_Amount = 1000,
      Vendor_internal = Some ''Acme Ltd'', Match_Bank_Ref = ''B1'', Bank_Date = 11,
      Bank_Amount = 1000, Vendor_bank = Some ''ACME'', Vendor_similarity = 1,
      Amount_diff = 0, MatchType = ''Fuzzy''\<rparr>"

text \<open>
  An internal transaction of amount 1 and a bank transaction of amount 11 in the next
  bucket, with the same vendor and date.
\<close>

definition small_internal :: internal_row where
  "small_internal =
     \<lparr>Date = 0, Amount = 1, Vendor_clean = ''acme'', Transaction_ID = ''T1'',
      Vendor = Some ''Acme''\<rparr>"

definition far_bank :: bank_row where
  "far_bank =
     \<lparr>Date = 0, Amount = 11, Vendor_clean = ''acme'', Bank_Ref = ''B1'',
      Vendor_Name = Some ''ACME''\<rparr>"

text \<open>
  The score as the specification states it, with the divisor \<open>|t.Amount| + 1\<close>, in the
  arithmetic of floats.
\<close>

definition spec_score :: "internal_row \<Rightarrow> bank_row \<Rightarrow> rat" where
  "spec_score t b =
     fsub (similarity (Vendor_clean t) (Vendor_clean b))
       (fmul (fdiv \<bar>fsub (Amount t) (Amount b)\<bar> (fadd \<bar>Amount t\<bar> 1)) (1 / 4))"

text \<open>
  Two pairs whose amounts are the floats written 0.99 and 8.94, and the floats written
  1.03 and 7.99 (see \<open>written_floats\<close> below); the vendor names of the second pair differ
  in the last of seven letters.
\<close>

definition cents_internal :: internal_row where
  "cents_internal =
     \<lparr>Date = 0, Amount = 4458563631096791 / 4503599627370496, Vendor_clean = ''acme'', Transaction_ID = ''T1'',
      Vendor = Some ''Acme''\<rparr>"

definition cents_bank :: bank_row where
  "cents_bank =
     \<lparr>Date = 0, Amount = 5032772583586529 / 562949953421312, Vendor_clean = ''acme'', Bank_Ref = ''B1'',
      Vendor_Name = Some ''ACME''\<rparr>"

definition rounding_internal :: internal_row where
  "rounding_internal =
     \<lparr>Date = 0, Amount = 4638707616191611 / 4503599627370496, Vendor_clean = ''abcdefg'',
      Transaction_ID = ''T1'', Vendor = Some ''abcdefg''\<rparr>"

definition rounding_bank :: bank_row where
  "rounding_bank =
     \<lparr>Date = 0, Amount = 4497970127836283 / 562949953421312, Vendor_clean = ''abcdefx'', Bank_Ref = ''B1'',
      Vendor_Name = Some ''abcdefx''\<rparr>"

section \<open>Floats written in decimal\<close>

lemma written_floats:
  "float64 (99 / 100) = 4458563631096791 / 4503599627370496"
  "float64 (894 / 100) = 5032772583586529 / 562949953421312"
  "float64 (103 / 100) = 4638707616191611 / 4503599627370496"
  "float64 (799 / 100) = 4497970127836283 / 562949953421312"
  by code_simp+

section \<open>Termination of the matching blocks\<close>

text \<open>
  A match that \<open>find_longest_match\<close> returns lies inside the region it was asked for;
  so both regions that \<open>matching_size\<close> goes on with are smaller than that region.
\<close>

lemma flm_row_bounds:
  assumes "flm_row j2len i blo bhi js (n0, bi0, bj0, bs0) = (n1, bi, bj, bs)"
    and "\<forall>j v. j2len j = Some v \<longrightarrow> v + alo \<le> i \<and> v + blo \<le> j + 1"
    and "alo \<le> bi0" "blo \<le> bj0" "bi0 + bs0 \<le> ma" "bj0 + bs0 \<le> mb"
    and "alo \<le> i" "i + 1 \<le> ma" "bhi \<le> mb"
    and "\<forall>j v. n0 j = Some v \<longrightarrow> v + alo \<le> i + 1 \<and> v + blo \<le> j + 1"
  shows "alo \<le> bi \<and> blo \<le> bj \<and> bi + bs \<le> ma \<and> bj + bs \<le> mb \<and>
         (\<forall>j v. n1 j = Some v \<longrightarrow> v + alo \<le> i + 1 \<and> v + blo \<le> j + 1)"
  using assms
proof (induction js arbitrary: n0 bi0 bj0 bs0)
  case Nil
  then show ?case by simp
next
  case (Cons j js)
  show ?case
  proof (cases "j < blo")
    case True
    with Cons.prems have "flm_row j2len i blo bhi js (n0, bi0, bj0, bs0) = (n1, bi, bj, bs)"
      by simp
    from Cons.IH[OF this Cons.prems(2-10)] show ?thesis .
  next
    case lo: False
    show ?thesis
    proof (cases "bhi \<le> j")
      case True
      with lo Cons.prems show ?thesis by simp
    next
      case hi: False
      define k where
        "k = (case (if j = 0 then None else j2len (j - 1)) of None \<Rightarrow> 0 | Some v \<Rightarrow> v) + 1"
      have kb: "k + alo \<le> i + 1 \<and> k + blo \<le> j + 1 \<and> 0 < k"
      proof (cases "j = 0 \<or> j2len (j - 1) = None")
        case True
        then have "k = 1" by (auto simp: k_def)
        with Cons.prems(7) lo show ?thesis by simp
      next
        case False
        then obtain v where v: "j2len (j - 1) = Some v" and j0: "j \<noteq> 0" by auto
        from Cons.prems(2) v have "v + alo \<le> i \<and> v + blo \<le> (j - 1) + 1" by blast
        moreover have "k = v + 1" using v j0 by (simp add: k_def)
        ultimately show ?thesis using j0 by simp
      qed
      have n': "\<forall>j' v. (n0(j \<mapsto> k)) j' = Some v \<longrightarrow> v + alo \<le> i + 1 \<and> v + blo \<le> j' + 1"
        using Cons.prems(10) kb by auto
      show ?thesis
      proof (cases "bs0 < k")
        case True
        with lo hi Cons.prems(1)
        have run: "flm_row j2len i blo bhi js (n0(j \<mapsto> k), i + 1 - k, j + 1 - k, k) = (n1, bi, bj, bs)"
          by (simp add: k_def Let_def)
        have "alo \<le> i + 1 - k" "blo \<le> j + 1 - k" "i + 1 - k + k \<le> ma" "j + 1 - k + k \<le> mb"
          using kb hi Cons.prems(8) Cons.prems(9) by auto
        from Cons.IH[OF run Cons.prems(2) this Cons.prems(7-9) n'] show ?thesis .
      next
        case False
        with lo hi Cons.prems(1)
        have run: "flm_row j2len i blo bhi js (n0(j \<mapsto> k), bi0, bj0, bs0) = (n1, bi, bj, bs)"
          by (simp add: k_def Let_def)
        from Cons.IH[OF run Cons.prems(2-9) n'] show ?thesis .
      qed
    qed
  qed
qed

lemma flm_rows_bounds:
  assumes "flm_rows a b blo bhi is (j2len, bi0, bj0, bs0) = (bi, bj, bs)"
    and "is = [i..<ahi]"
    and "\<forall>j v. j2len j = Some v \<longrightarrow> v + alo \<le> i \<and> v + blo \<le> j + 1"
    and "alo \<le> bi0" "blo \<le> bj0" "bi0 + bs0 \<le> ma" "bj0 + bs0 \<le> mb"
    and "alo \<le> i" "ahi \<le> ma" "bhi \<le> mb"
  shows "alo \<le> bi \<and> blo \<le> bj \<and> bi + bs \<le> ma \<and> bj + bs \<le> mb"
  using assms
proof (induction "is" arbitrary: i j2len bi0 bj0 bs0)
  case Nil
  then show ?case by simp
next
  case (Cons i' is')
  from Cons.prems(2)[symmetric] have i': "i' = i" and lt: "i < ahi" and rest: "is' = [Suc i..<ahi]"
    by (auto simp: upt_eq_Cons_conv)
  obtain n1 bi1 bj1 bs1 where
    row: "flm_row j2len i blo bhi (b2j b (a ! i)) (Map.empty, bi0, bj0, bs0) = (n1, bi1, bj1, bs1)"
    by (metis prod_cases4)
  have e: "\<forall>j v. (Map.empty :: nat \<rightharpoonup> nat) j = Some v \<longrightarrow> v + alo \<le> i + 1 \<and> v + blo \<le> j + 1"
    by simp
  have i1: "i + 1 \<le> ma" using lt Cons.prems(9) by simp
  from flm_row_bounds[OF row Cons.prems(3-8) i1 Cons.prems(10) e]
  have r: "alo \<le> bi1" "blo \<le> bj1" "bi1 + bs1 \<le> ma" "bj1 + bs1 \<le> mb"
    "\<forall>j v. n1 j = Some v \<longrightarrow> v + alo \<le> Suc i \<and> v + blo \<le> j + 1"
    by auto
  from Cons.prems(1) row i'
  have run: "flm_rows a b blo bhi is' (n1, bi1, bj1, bs1) = (bi, bj, bs)"
    by simp
  have "alo \<le> Suc i" using Cons.prems(8) by simp
  from Cons.IH[OF run rest r(5) r(1-4) this Cons.prems(9,10)] show ?case .
qed

lemma extend_left_bounds:
  "extend_left a b alo blo (bi0, bj0, bs0) = (bi, bj, bs) \<Longrightarrow> alo \<le> bi0 \<Longrightarrow> blo \<le> bj0 \<Longrightarrow>
   alo \<le> bi \<and> blo \<le> bj \<and> bi + bs = bi0 + bs0 \<and> bj + bs = bj0 + bs0"
proof (induction a b alo blo "(bi0, bj0, bs0)" arbitrary: bi0 bj0 bs0 rule: extend_left.induct)
  case (1 a b alo blo besti bestj bestsize)
  show ?case
  proof (cases "alo < besti \<and> blo < bestj \<and> a ! (besti - 1) = b ! (bestj - 1)")
    case True
    with "1.prems"(1) have "extend_left a b alo blo (besti - 1, bestj - 1, bestsize + 1) = (bi, bj, bs)"
      by simp
    moreover have "alo \<le> besti - 1" "blo \<le> bestj - 1" using True by auto
    ultimately have "alo \<le> bi \<and> blo \<le> bj \<and> bi + bs = besti - 1 + (bestsize + 1) \<and>
        bj + bs = bestj - 1 + (bestsize + 1)"
      using "1.hyps"[OF True] by blast
    with True show ?thesis by auto
  next
    case False
    with "1.prems" show ?thesis by auto
  qed
qed

lemma extend_right_bounds:
  "extend_right a b ahi bhi (bi0, bj0, bs0) = (bi, bj, bs) \<Longrightarrow>
   bi0 + bs0 \<le> ma \<Longrightarrow> bj0 + bs0 \<le> mb \<Longrightarrow> ahi \<le> ma \<Longrightarrow> bhi \<le> mb \<Longrightarrow>
   bi = bi0 \<and> bj = bj0 \<and> bi + bs \<le> ma \<and> bj + bs \<le> mb"
proof (induction a b ahi bhi "(bi0, bj0, bs0)" arbitrary: bi0 bj0 bs0 rule: extend_right.induct)
  case (1 a b ahi bhi besti bestj bestsize)
  show ?case
  proof (cases "besti + bestsize < ahi \<and> bestj + bestsize < bhi \<and>
         a ! (besti + bestsize) = b ! (bestj + bestsize)")
    case True
    with "1.prems"(1) have "extend_right a b ahi bhi (besti, bestj, bestsize + 1) = (bi, bj, bs)"
      by simp
    moreover have "besti + (bestsize + 1) \<le> ma" "bestj + (bestsize + 1) \<le> mb"
      using True "1.prems"(4,5) by auto
    ultimately show ?thesis
      using "1.hyps"[OF True] "1.prems"(4,5) by blast
  next
    case False
    with "1.prems" show ?thesis by auto
  qed
qed

lemma find_longest_match_bounds:
  assumes "find_longest_match a b alo ahi blo bhi = (i, j, k)"
  shows "alo \<le> i \<and> blo \<le> j \<and> (0 < k \<longrightarrow> i + k \<le> ahi \<and> j + k \<le> bhi)"
proof -
  obtain bi0 bj0 bs0 where
    m: "flm_rows a b blo bhi [alo..<ahi] (Map.empty, alo, blo, 0) = (bi0, bj0, bs0)"
    by (metis prod_cases3)
  obtain bi1 bj1 bs1 where l: "extend_left a b alo blo (bi0, bj0, bs0) = (bi1, bj1, bs1)"
    by (metis prod_cases3)
  from assms m l have r: "extend_right a b ahi bhi (bi1, bj1, bs1) = (i, j, k)"
    by (simp add: find_longest_match_def)
  have "alo \<le> bi0 \<and> blo \<le> bj0 \<and> bi0 + bs0 \<le> max ahi alo \<and> bj0 + bs0 \<le> max bhi blo"
    by (rule flm_rows_bounds[OF m refl]) simp_all
  with extend_left_bounds[OF l]
  have b1: "alo \<le> bi1 \<and> blo \<le> bj1 \<and> bi1 + bs1 \<le> max ahi alo \<and> bj1 + bs1 \<le> max bhi blo"
    by auto
  have "i = bi1 \<and> j = bj1 \<and> i + k \<le> max ahi alo \<and> j + k \<le> max bhi blo"
    by (rule extend_right_bounds[OF r]) (use b1 in simp_all)
  with b1 show ?thesis by (auto simp: max_def split: if_splits)
qed

termination matching_size
  apply (relation "measure (\<lambda>(a, b, alo, ahi, blo, bhi). ahi - alo)")
    apply simp
   apply (auto dest!: find_longest_match_bounds[OF sym])
  done



section \<open>The scan for the best candidate\<close>

lemma scan_bucket_best_of:
  assumes "scan_bucket i t used tol thr L st = Inr st'"
    and "best_of i t used tol thr S st"
  shows "best_of i t used tol thr (S \<union> set L) st'"
  using assms
proof (induction L arbitrary: S st)
  case Nil
  then show ?case by simp
next
  case (Cons jb L)
  obtain j b where jb: "jb = (j, b)" by (cases jb)
  obtain s bm where st: "st = (s, bm)" by (cases st)
  have s0: "0 \<le> s"
    using Cons.prems(2) st
    by (auto simp: best_of_def selectable_def split: option.splits)
  have smax: "\<forall>x \<in> S. selectable t used tol thr x \<longrightarrow> score t (snd x) \<le> s"
    using Cons.prems(2) st
    by (auto simp: best_of_def split: option.splits)
  show ?case
  proof (cases "selectable t used tol thr (j, b) \<and> s < score t b")
    case True
    then have nz: "Amount t + 1 \<noteq> 0 \<or> True" by simp
    from True have sel: "j \<notin> used" "\<bar>Date t - Date b\<bar> \<le> tol"
      "thr \<le> similarity (Vendor_clean t) (Vendor_clean b)"
      by (auto simp: selectable_def)
    from Cons.prems(1) sel True
    have run: "scan_bucket i t used tol thr L
        (score t b, Some (i, j, b, similarity (Vendor_clean t) (Vendor_clean b), \<bar>fsub (Amount t) (Amount b)\<bar>))
        = Inr st'"
      by (auto simp: jb st score_def Let_def split: if_splits)
    have "best_of i t used tol thr (insert (j, b) S)
        (score t b, Some (i, j, b, similarity (Vendor_clean t) (Vendor_clean b), \<bar>fsub (Amount t) (Amount b)\<bar>))"
      using True smax by (auto simp: best_of_def)
    from Cons.IH[OF run this] show ?thesis by (simp add: jb)
  next
    case False
    from Cons.prems(1) False s0
    have run: "scan_bucket i t used tol thr L (s, bm) = Inr st'"
      by (auto simp: jb st score_def selectable_def Let_def split: if_splits)
    have pos: "selectable t used tol thr (j, b) \<Longrightarrow> 0 < score t b"
      by (simp add: selectable_def)
    have "best_of i t used tol thr (insert (j, b) S) (s, bm)"
      using Cons.prems(2) False smax pos
      by (auto simp: best_of_def st split: option.splits)
    from Cons.IH[OF run this] show ?thesis by (simp add: jb)
  qed
qed

lemma scan_keys_best_of:
  assumes "scan_keys i t used tol thr bba ks st = Inr st'"
    and "best_of i t used tol thr S st"
  shows "best_of i t used tol thr (S \<union> (\<Union>k \<in> set ks. set (bucket_get bba k))) st'"
  using assms
proof (induction ks arbitrary: S st)
  case Nil
  then show ?case by simp
next
  case (Cons k ks)
  from Cons.prems(1) obtain st1 where
    b: "scan_bucket i t used tol thr (bucket_get bba k) st = Inr st1" and
    r: "scan_keys i t used tol thr bba ks st1 = Inr st'"
    by (auto split: sum.splits)
  from Cons.IH[OF r scan_bucket_best_of[OF b Cons.prems(2)]]
  show ?case by (simp add: Un_assoc)
qed

lemma bucket_get_amount_buckets:
  "bucket_get (amount_buckets xs m) k =
   bucket_get m k @ filter (\<lambda>jb. bucket_key (Amount (snd jb)) = k) xs"
proof (induction xs arbitrary: m)
  case Nil
  then show ?case by simp
next
  case (Cons x xs)
  obtain j b where x: "x = (j, b)" by (cases x)
  show ?case
    by (simp add: x Cons.IH Let_def) (simp add: bucket_get_def)
qed

section \<open>The loop over the internal transactions\<close>

lemma iterrows_nth: "(i, x) \<in> set (iterrows df) \<longleftrightarrow> i < length df \<and> x = df ! i"
proof
  assume "(i, x) \<in> set (iterrows df)"
  then show "i < length df \<and> x = df ! i"
    unfolding iterrows_def by (auto simp: in_set_zip)
next
  assume a: "i < length df \<and> x = df ! i"
  then have "[0..<length df] ! i = i \<and> df ! i = x \<and> i < length df" by simp
  then show "(i, x) \<in> set (iterrows df)"
    unfolding iterrows_def in_set_zip by auto
qed

lemma searched_set:
  "(\<Union>k \<in> set [key - 1, key, key + 1].
      set (bucket_get (amount_buckets (iterrows bdf) Map.empty) k)) =
   {jb \<in> set (iterrows bdf). bucket_key (Amount (snd jb)) = key - 1 \<or>
      bucket_key (Amount (snd jb)) = key \<or> bucket_key (Amount (snd jb)) = key + 1}"
  by (auto simp: bucket_get_amount_buckets) (simp_all add: bucket_get_def)

lemma subseq_set_subset: "subseq xs ys \<Longrightarrow> set xs \<subseteq> set ys"
  by (auto dest: list_emb_set)

lemma reconcile_loop_step:
  assumes "reconcile_loop idf (amount_buckets (iterrows bdf) Map.empty) tol thr ((i, t) # rest)
             (U, M, N) = Inr R"
  shows "((\<forall>jb \<in> set (iterrows bdf). in_buckets t (snd jb) \<longrightarrow> \<not> selectable t U tol thr jb) \<and>
          reconcile_loop idf (amount_buckets (iterrows bdf) Map.empty) tol thr rest
            (U, M, N @ [i]) = Inr R) \<or>
         (\<exists>j b. (j, b) \<in> set (iterrows bdf) \<and> in_buckets t b \<and> selectable t U tol thr (j, b) \<and>
            (\<forall>jb \<in> set (iterrows bdf). in_buckets t (snd jb) \<and> selectable t U tol thr jb \<longrightarrow>
               score t (snd jb) \<le> score t b) \<and>
            reconcile_loop idf (amount_buckets (iterrows bdf) Map.empty) tol thr rest
              (insert j U,
               M @ [match_dict idf (i, j, b, similarity (Vendor_clean t) (Vendor_clean b),
                     \<bar>fsub (Amount t) (Amount b)\<bar>)], N) = Inr R)"
proof -
  define bba where "bba = amount_buckets (iterrows bdf) Map.empty"
  define key where "key = bucket_key (Amount t)"
  define S where "S = {jb \<in> set (iterrows bdf). in_buckets t (snd jb)}"
  from assms obtain s bm where
    scan: "scan_keys i t U tol thr bba [key - 1, key, key + 1] (0, None) = Inr (s, bm)"
    by (auto simp: bba_def key_def Let_def split: sum.splits)
  have "best_of i t U tol thr {} (0, None)"
    by (simp add: best_of_def)
  from scan_keys_best_of[OF scan this]
  have best: "best_of i t U tol thr S (s, bm)"
    unfolding bba_def searched_set S_def in_buckets_def key_def Let_def by simp
  show ?thesis
  proof (cases bm)
    case None
    with assms scan have "reconcile_loop idf bba tol thr rest (U, M, N @ [i]) = Inr R"
      by (simp add: bba_def key_def Let_def)
    moreover from best None have "\<forall>jb \<in> S. \<not> selectable t U tol thr jb"
      by (simp add: best_of_def)
    ultimately show ?thesis
      by (auto simp: bba_def S_def)
  next
    case (Some x)
    obtain i' j b sim ad where x: "x = (i', j, b, sim, ad)" by (cases x)
    from best Some x have
      f: "i' = i" "(j, b) \<in> S" "selectable t U tol thr (j, b)"
         "sim = similarity (Vendor_clean t) (Vendor_clean b)" "ad = \<bar>fsub (Amount t) (Amount b)\<bar>"
         "\<forall>jb \<in> S. selectable t U tol thr jb \<longrightarrow> score t (snd jb) \<le> score t b"
      by (auto simp: best_of_def)
    from assms scan Some x f(1,4,5)
    have "reconcile_loop idf bba tol thr rest
            (insert j U, M @ [match_dict idf (i, j, b, similarity (Vendor_clean t) (Vendor_clean b),
                     \<bar>fsub (Amount t) (Amount b)\<bar>)], N) = Inr R"
      by (simp add: bba_def key_def Let_def)
    with f(2,3,6) show ?thesis
      unfolding bba_def S_def
      by (intro disjI2 exI[of _ j] exI[of _ b]) auto
  qed
qed

lemma match_dict_match_of:
  "match_dict idf (i, j, b, similarity (Vendor_clean (idf ! i)) (Vendor_clean b),
      \<bar>fsub (Amount (idf ! i)) (Amount b)\<bar>) = match_of (idf ! i) b"
  by (simp add: match_dict_def match_of_def)

text \<open>The trace of a run of the loop: the pairs of positions it matches, in order.\<close>

lemma reconcile_loop_trace:
  assumes "reconcile_loop idf (amount_buckets (iterrows bdf) Map.empty) tol thr rows
             (U, M, N) = Inr (U', M', N')"
    and "set rows \<subseteq> set (iterrows idf)" and "distinct (map fst rows)"
  shows "\<exists>ps. M' = M @ map (\<lambda>(i, j). match_of (idf ! i) (bdf ! j)) ps \<and>
           subseq (map fst ps) (map fst rows) \<and>
           distinct (map snd ps) \<and> set (map snd ps) \<inter> U = {} \<and>
           U' = U \<union> set (map snd ps) \<and>
           N' = N @ filter (\<lambda>i. i \<notin> set (map fst ps)) (map fst rows) \<and>
           (\<forall>(i, j) \<in> set ps. i < length idf \<and> j < length bdf \<and>
              \<bar>Date (idf ! i) - Date (bdf ! j)\<bar> \<le> tol \<and>
              thr \<le> similarity (Vendor_clean (idf ! i)) (Vendor_clean (bdf ! j)) \<and>
              0 < score (idf ! i) (bdf ! j))"
  using assms
proof (induction rows arbitrary: U M N)
  case Nil
  then show ?case by (intro exI[of _ "[]"]) simp
next
  case (Cons r rows)
  obtain i t where r: "r = (i, t)" by (cases r)
  from Cons.prems(2) r have it: "i < length idf" "t = idf ! i"
    by (auto simp: iterrows_nth)
  from Cons.prems(2) have sub: "set rows \<subseteq> set (iterrows idf)" by simp
  from Cons.prems(3) r have dist: "distinct (map fst rows)" and inew: "i \<notin> set (map fst rows)"
    by auto
  from reconcile_loop_step[OF Cons.prems(1)[unfolded r]]
  show ?case
  proof (elim disjE conjE exE)
    assume run: "reconcile_loop idf (amount_buckets (iterrows bdf) Map.empty) tol thr rows
            (U, M, N @ [i]) = Inr (U', M', N')"
    from Cons.IH[OF run sub dist] obtain ps where
      ps: "M' = M @ map (\<lambda>(i, j). match_of (idf ! i) (bdf ! j)) ps"
        "subseq (map fst ps) (map fst rows)"
        "distinct (map snd ps)" "set (map snd ps) \<inter> U = {}"
        "U' = U \<union> set (map snd ps)"
        "N' = (N @ [i]) @ filter (\<lambda>i. i \<notin> set (map fst ps)) (map fst rows)"
        "\<forall>(i, j) \<in> set ps. i < length idf \<and> j < length bdf \<and>
              \<bar>Date (idf ! i) - Date (bdf ! j)\<bar> \<le> tol \<and>
              thr \<le> similarity (Vendor_clean (idf ! i)) (Vendor_clean (bdf ! j)) \<and>
              0 < score (idf ! i) (bdf ! j)"
      by blast
    from inew have ips: "i \<notin> set (map fst ps)"
      using subseq_set_subset[OF ps(2)] by blast
    show ?thesis
      apply (rule exI[of _ ps])
      using ps ips by (auto simp: r)
  next
    fix j b
    assume jb: "(j, b) \<in> set (iterrows bdf)" and sel: "selectable t U tol thr (j, b)"
      and run: "reconcile_loop idf (amount_buckets (iterrows bdf) Map.empty) tol thr rows
          (insert j U, M @ [match_dict idf (i, j, b, similarity (Vendor_clean t) (Vendor_clean b),
                     \<bar>fsub (Amount t) (Amount b)\<bar>)], N) = Inr (U', M', N')"
    from jb have jb': "j < length bdf" "b = bdf ! j" by (auto simp: iterrows_nth)
    have md: "match_dict idf (i, j, b, similarity (Vendor_clean t) (Vendor_clean b),
                     \<bar>fsub (Amount t) (Amount b)\<bar>) = match_of (idf ! i) (bdf ! j)"
      unfolding it(2) jb'(2) by (rule match_dict_match_of)
    from Cons.IH[OF run sub dist] obtain ps where
      ps: "M' = (M @ [match_of (idf ! i) (bdf ! j)]) @ map (\<lambda>(i, j). match_of (idf ! i) (bdf ! j)) ps"
        "subseq (map fst ps) (map fst rows)"
        "distinct (map snd ps)" "set (map snd ps) \<inter> insert j U = {}"
        "U' = insert j U \<union> set (map snd ps)"
        "N' = N @ filter (\<lambda>i. i \<notin> set (map fst ps)) (map fst rows)"
        "\<forall>(i, j) \<in> set ps. i < length idf \<and> j < length bdf \<and>
              \<bar>Date (idf ! i) - Date (bdf ! j)\<bar> \<le> tol \<and>
              thr \<le> similarity (Vendor_clean (idf ! i)) (Vendor_clean (bdf ! j)) \<and>
              0 < score (idf ! i) (bdf ! j)"
      unfolding md by blast
    have flt: "filter (\<lambda>x. x \<notin> set (map fst ((i, j) # ps))) (map fst rows) =
               filter (\<lambda>i. i \<notin> set (map fst ps)) (map fst rows)"
      using inew by (intro filter_cong) auto
    from sel have sel': "j \<notin> U" "\<bar>Date (idf ! i) - Date (bdf ! j)\<bar> \<le> tol"
      "thr \<le> similarity (Vendor_clean (idf ! i)) (Vendor_clean (bdf ! j))"
      "0 < score (idf ! i) (bdf ! j)"
      by (auto simp: selectable_def it(2) jb'(2))
    show ?thesis
      apply (rule exI[of _ "(i, j) # ps"])
      using ps sel' it(1) jb'(1) flt by (auto simp: r)
  qed
qed

lemma iterrows_fst: "map fst (iterrows df) = [0..<length df]"
  by (simp add: iterrows_def)

lemma reconcile_trace:
  assumes "reconcile idf bdf tol a thr = Inr (ms, ui, ub)"
  shows "\<exists>ps. ms = map (\<lambda>(i, j). match_of (idf ! i) (bdf ! j)) ps \<and>
           distinct (map fst ps) \<and> distinct (map snd ps) \<and>
           ui = map (\<lambda>i. (i, idf ! i)) (filter (\<lambda>i. i \<notin> set (map fst ps)) [0..<length idf]) \<and>
           ub = map (\<lambda>j. (j, bdf ! j)) (filter (\<lambda>j. j \<notin> set (map snd ps)) [0..<length bdf]) \<and>
           (\<forall>(i, j) \<in> set ps. i < length idf \<and> j < length bdf \<and>
              \<bar>Date (idf ! i) - Date (bdf ! j)\<bar> \<le> tol \<and>
              thr \<le> similarity (Vendor_clean (idf ! i)) (Vendor_clean (bdf ! j)) \<and>
              0 < score (idf ! i) (bdf ! j))"
proof -
  from assms obtain U' N' where
    run: "reconcile_loop idf (amount_buckets (iterrows bdf) Map.empty) tol thr (iterrows idf)
            ({}, [], []) = Inr (U', ms, N')"
    and ui: "ui = map (\<lambda>i. (i, idf ! i)) N'"
    and ub: "ub = map (\<lambda>j. (j, bdf ! j)) (filter (\<lambda>j. j \<notin> U') [0..<length bdf])"
    by (auto simp: reconcile_def Let_def split: sum.splits)
  have d: "distinct (map fst (iterrows idf))" by (simp add: iterrows_fst)
  from reconcile_loop_trace[OF run subset_refl d] obtain ps where
    ps: "ms = [] @ map (\<lambda>(i, j). match_of (idf ! i) (bdf ! j)) ps"
      "subseq (map fst ps) (map fst (iterrows idf))"
      "distinct (map snd ps)"
      "U' = {} \<union> set (map snd ps)"
      "N' = [] @ filter (\<lambda>i. i \<notin> set (map fst ps)) (map fst (iterrows idf))"
      "\<forall>(i, j) \<in> set ps. i < length idf \<and> j < length bdf \<and>
              \<bar>Date (idf ! i) - Date (bdf ! j)\<bar> \<le> tol \<and>
              thr \<le> similarity (Vendor_clean (idf ! i)) (Vendor_clean (bdf ! j)) \<and>
              0 < score (idf ! i) (bdf ! j)"
    by blast
  from ps(2) have "distinct (map fst ps)"
    unfolding iterrows_fst
    using subseqs_distinctD[of "map fst ps" "[0..<length idf]"] by simp
  with ps ui ub show ?thesis
    by (intro exI[of _ ps]) (simp add: iterrows_fst)
qed

lemma length_filter_notin:
  assumes "distinct xs" and "set xs \<subseteq> {0..<n}"
  shows "length (filter (\<lambda>i. i \<notin> set xs) [0..<n]) + length xs = n"
proof -
  have "length (filter (\<lambda>i. i \<notin> set xs) [0..<n]) = card ({i. i \<notin> set xs} \<inter> set [0..<n])"
    by (rule distinct_length_filter) simp
  also have "{i. i \<notin> set xs} \<inter> set [0..<n] = {0..<n} - set xs" by auto
  also have "card ({0..<n} - set xs) = n - card (set xs)"
    using assms(2) by (simp add: card_Diff_subset)
  also have "card (set xs) = length xs" using assms(1) by (rule distinct_card)
  finally have "length (filter (\<lambda>i. i \<notin> set xs) [0..<n]) = n - length xs" .
  moreover have "length xs \<le> n"
    using assms card_mono[of "{0..<n}" "set xs"] distinct_card[of xs] by simp
  ultimately show ?thesis by simp
qed

lemma example_run:
  "reconcile example_internal example_bank 2 50 (3 / 4) =
     Inr ([example_match], [(1, example_internal ! 1)], [(1, example_bank ! 1)])"
  by code_simp

lemma distinct_map_nth:
  assumes "distinct (map f xs)" and "distinct is" and "set is \<subseteq> {0..<length xs}"
  shows "distinct (map (\<lambda>i. f (xs ! i)) is)"
proof -
  have "inj_on (\<lambda>i. f (xs ! i)) (set is)"
  proof (rule inj_onI)
    fix i j
    assume "i \<in> set is" "j \<in> set is" and e: "f (xs ! i) = f (xs ! j)"
    with assms(3) have ij: "i < length xs" "j < length xs" by auto
    with e have "map f xs ! i = map f xs ! j" by simp
    moreover from ij have "i < length (map f xs)" "j < length (map f xs)" by simp_all
    ultimately show "i = j" using assms(1) nth_eq_iff_index_eq by blast
  qed
  with assms(2) show ?thesis by (simp add: distinct_map)
qed

section \<open>A run on a prefix of the internal transactions\<close>

lemma reconcile_loop_Cons:
  "reconcile_loop idf bba tol thr ((i, t) # rest) (U, M, N) =
     (case scan_keys i t U tol thr bba
             [bucket_key (Amount t) - 1, bucket_key (Amount t), bucket_key (Amount t) + 1]
             (0, None) of
        Inl e \<Rightarrow> Inl e
      | Inr (s, bm) \<Rightarrow>
          (case bm of
             None \<Rightarrow> reconcile_loop idf bba tol thr rest (U, M, N @ [i])
           | Some (i', j, b, sim, ad) \<Rightarrow>
               reconcile_loop idf bba tol thr rest
                 (insert j U, M @ [match_dict idf (i', j, b, sim, ad)], N)))"
  by (simp add: Let_def del: scan_keys.simps)

lemma reconcile_loop_append:
  "reconcile_loop idf bba tol thr (xs @ ys) st =
     (case reconcile_loop idf bba tol thr xs st of
        Inl e \<Rightarrow> Inl e
      | Inr st' \<Rightarrow> reconcile_loop idf bba tol thr ys st')"
proof (induction xs arbitrary: st)
  case Nil
  then show ?case by simp
next
  case (Cons x xs)
  obtain i t where x: "x = (i, t)" by (cases x)
  obtain U M N where st: "st = (U, M, N)" by (cases st)
  show ?case
    unfolding x st append_Cons reconcile_loop_Cons
    by (simp only: Cons.IH split: sum.splits option.splits prod.splits) simp
qed

lemma scan_keys_index:
  assumes "scan_keys i t U tol thr bba ks (0, None) = Inr (s, Some (i', j, b, sim, ad))"
  shows "i' = i"
proof -
  have "best_of i t U tol thr {} (0, None)" by (simp add: best_of_def)
  from scan_keys_best_of[OF assms this] show ?thesis by (simp add: best_of_def)
qed

lemma reconcile_loop_idf_cong:
  assumes "\<forall>(i, t) \<in> set rows. idf ! i = idf' ! i"
  shows "reconcile_loop idf bba tol thr rows st = reconcile_loop idf' bba tol thr rows st"
  using assms
proof (induction rows arbitrary: st)
  case Nil
  then show ?case by simp
next
  case (Cons x rows)
  obtain i t where x: "x = (i, t)" by (cases x)
  obtain U M N where st: "st = (U, M, N)" by (cases st)
  from Cons.prems x have e: "idf ! i = idf' ! i" and r: "\<forall>(i, t) \<in> set rows. idf ! i = idf' ! i"
    by auto
  have md: "match_dict idf (i, j, b, sim, ad) = match_dict idf' (i, j, b, sim, ad)" for j b sim ad
    by (simp add: match_dict_def e)
  note IH = Cons.IH[OF r]
  define ks where
    "ks = [bucket_key (Amount t) - 1, bucket_key (Amount t), bucket_key (Amount t) + 1]"
  show ?case
  proof (cases "scan_keys i t U tol thr bba ks (0, None)")
    case (Inl e)
    then show ?thesis unfolding x st reconcile_loop_Cons ks_def[symmetric] by simp
  next
    case (Inr q)
    obtain s bm where q: "q = (s, bm)" by (cases q)
    show ?thesis
    proof (cases bm)
      case None
      with Inr q show ?thesis unfolding x st reconcile_loop_Cons ks_def[symmetric]
        by (simp add: IH)
    next
      case (Some y)
      obtain i' j b sim ad where y: "y = (i', j, b, sim, ad)" by (cases y)
      from Inr have "scan_keys i t U tol thr bba ks (0, None) = Inr (s, Some (i', j, b, sim, ad))"
        by (simp add: q Some y)
      then have "i' = i" by (rule scan_keys_index)
      with Inr q Some y show ?thesis unfolding x st reconcile_loop_Cons ks_def[symmetric]
        by (simp add: IH md)
    qed
  qed
qed

lemma iterrows_append:
  "iterrows (xs @ ys) = iterrows xs @ zip [length xs..<length xs + length ys] ys"
proof -
  have "[0..<length xs + length ys] = [0..<length xs] @ [length xs..<length xs + length ys]"
    by (rule upt_add_eq_append) simp
  then show ?thesis by (simp add: iterrows_def)
qed

lemma unmatched_bank_set:
  "set (map (\<lambda>j. (j, bdf ! j)) (filter (\<lambda>j. j \<notin> U) [0..<length bdf])) =
   {jb \<in> set (iterrows bdf). fst jb \<notin> U}"
  by (auto simp: iterrows_nth)

lemma reconcile_loop_unmatched_set:
  assumes "reconcile_loop idf (amount_buckets (iterrows bdf) Map.empty) tol thr rows
             (U, M, N) = Inr (U', M', N')"
    and "set rows \<subseteq> set (iterrows idf)" and "distinct (map fst rows)"
  shows "set N \<subseteq> set N' \<and> set N' \<subseteq> set N \<union> set (map fst rows) \<and>
         (\<exists>M1. M' = M @ M1)"
proof -
  from reconcile_loop_trace[OF assms] obtain ps where
    "M' = M @ map (\<lambda>(i, j). match_of (idf ! i) (bdf ! j)) ps"
    "N' = N @ filter (\<lambda>i. i \<notin> set (map fst ps)) (map fst rows)"
    by blast
  then show ?thesis by auto
qed

lemma reconcile_prefix_unmatched:
  assumes "reconcile (pre @ t # post) bank_df date_tol_days amount_tol sim_threshold =
             Inr (ms, ui, ub)"
  shows "\<exists>ms0 ui0 ub0.
           reconcile pre bank_df date_tol_days amount_tol sim_threshold = Inr (ms0, ui0, ub0) \<and>
           ((length pre, t) \<in> set ui \<longleftrightarrow>
              \<not> (\<exists>jb \<in> set ub0. candidate t date_tol_days sim_threshold (snd jb) \<and>
                    0 < score t (snd jb))) \<and>
           ((length pre, t) \<notin> set ui \<longrightarrow>
              (\<exists>jb \<in> set ub0. candidate t date_tol_days sim_threshold (snd jb) \<and>
                 0 < score t (snd jb) \<and>
                 (\<forall>jb' \<in> set ub0. candidate t date_tol_days sim_threshold (snd jb') \<longrightarrow>
                    score t (snd jb') \<le> score t (snd jb)) \<and>
                 take (Suc (length ms0)) ms = ms0 @ [match_of t (snd jb)]))"
proof -
  define idf where "idf = pre @ t # post"
  define n where "n = length pre"
  define bba where "bba = amount_buckets (iterrows bank_df) Map.empty"
  define rest where "rest = zip [Suc n..<n + Suc (length post)] post"
  have nth_n: "idf ! n = t" by (simp add: idf_def n_def)
  have "[n..<n + Suc (length post)] = n # [Suc n..<n + Suc (length post)]"
    by (rule upt_conv_Cons) simp
  then have rows: "iterrows idf = iterrows pre @ (n, t) # rest"
    unfolding idf_def iterrows_append rest_def
    by (simp add: n_def)
  from assms obtain U' N' where
    run: "reconcile_loop idf bba date_tol_days sim_threshold (iterrows idf) ({}, [], []) = Inr (U', ms, N')"
    and ui: "ui = map (\<lambda>i. (i, idf ! i)) N'"
    by (auto simp: reconcile_def Let_def idf_def bba_def split: sum.splits)
  from run obtain st0 where
    p: "reconcile_loop idf bba date_tol_days sim_threshold (iterrows pre) ({}, [], []) = Inr st0" and
    q: "reconcile_loop idf bba date_tol_days sim_threshold ((n, t) # rest) st0 = Inr (U', ms, N')"
    unfolding rows reconcile_loop_append by (auto split: sum.splits)
  obtain U0 M0 N0 where st0: "st0 = (U0, M0, N0)" by (cases st0)
  have "\<forall>(i, x) \<in> set (iterrows pre). idf ! i = pre ! i"
    by (auto simp: iterrows_nth idf_def nth_append)
  from reconcile_loop_idf_cong[OF this]
  have p': "reconcile_loop pre bba date_tol_days sim_threshold (iterrows pre) ({}, [], []) = Inr (U0, M0, N0)"
    using p st0 by simp
  define ub0 where "ub0 = map (\<lambda>j. (j, bank_df ! j)) (filter (\<lambda>j. j \<notin> U0) [0..<length bank_df])"
  have pre_run: "reconcile pre bank_df date_tol_days amount_tol sim_threshold =
      Inr (M0, map (\<lambda>i. (i, pre ! i)) N0, ub0)"
    using p' by (simp add: reconcile_def Let_def bba_def ub0_def)
  have ub0_set: "set ub0 = {jb \<in> set (iterrows bank_df). fst jb \<notin> U0}"
    unfolding ub0_def by (rule unmatched_bank_set)
  have d: "distinct (map fst (iterrows idf))" by (simp add: iterrows_fst)
  have sub_pre: "set (iterrows pre) \<subseteq> set (iterrows idf)"
    and sub_rest: "set rest \<subseteq> set (iterrows idf)"
    by (auto simp: rows)
  from d have d_pre: "distinct (map fst (iterrows pre))" and d_rest: "distinct (map fst rest)"
    and n_rest: "n \<notin> set (map fst rest)"
    by (auto simp: rows)
  from reconcile_loop_unmatched_set[OF p[unfolded st0 bba_def] sub_pre d_pre]
  have "set N0 \<subseteq> set (map fst (iterrows pre))" by simp
  then have n_N0: "n \<notin> set N0"
    by (auto simp: iterrows_fst n_def)
  have sel_iff: "selectable t U0 date_tol_days sim_threshold jb \<longleftrightarrow>
      fst jb \<notin> U0 \<and> \<bar>Date t - Date (snd jb)\<bar> \<le> date_tol_days \<and>
      sim_threshold \<le> similarity (Vendor_clean t) (Vendor_clean (snd jb)) \<and> 0 < score t (snd jb)" for jb
    by (simp add: selectable_def)
  from reconcile_loop_step[OF q[unfolded st0 bba_def]]
  show ?thesis
  proof (elim disjE conjE exE)
    assume none: "\<forall>jb \<in> set (iterrows bank_df). in_buckets t (snd jb) \<longrightarrow>
        \<not> selectable t U0 date_tol_days sim_threshold jb"
      and r: "reconcile_loop idf (amount_buckets (iterrows bank_df) Map.empty) date_tol_days sim_threshold rest
          (U0, M0, N0 @ [n]) = Inr (U', ms, N')"
    from reconcile_loop_unmatched_set[OF r sub_rest d_rest] have "n \<in> set N'" by auto
    then have in_ui: "(length pre, t) \<in> set ui"
      using nth_n by (force simp: ui n_def)
    have no: "\<not> (\<exists>jb \<in> set ub0. candidate t date_tol_days sim_threshold (snd jb) \<and>
                    0 < score t (snd jb))"
      using none by (auto simp: ub0_set candidate_def sel_iff)
    from pre_run in_ui no show ?thesis by blast
  next
    fix j b
    assume jb: "(j, b) \<in> set (iterrows bank_df)" and inb: "in_buckets t b"
      and sel: "selectable t U0 date_tol_days sim_threshold (j, b)"
      and best: "\<forall>jb \<in> set (iterrows bank_df). in_buckets t (snd jb) \<and>
          selectable t U0 date_tol_days sim_threshold jb \<longrightarrow> score t (snd jb) \<le> score t b"
      and r: "reconcile_loop idf (amount_buckets (iterrows bank_df) Map.empty) date_tol_days sim_threshold rest
          (insert j U0,
           M0 @ [match_dict idf (n, j, b, similarity (Vendor_clean t) (Vendor_clean b),
                   \<bar>fsub (Amount t) (Amount b)\<bar>)], N0) = Inr (U', ms, N')"
    have md: "match_dict idf (n, j, b, similarity (Vendor_clean t) (Vendor_clean b),
                   \<bar>fsub (Amount t) (Amount b)\<bar>) = match_of t b"
      using match_dict_match_of[of idf n j b] by (simp add: nth_n)
    from reconcile_loop_unmatched_set[OF r sub_rest d_rest] n_N0 n_rest
    have "n \<notin> set N'" and "\<exists>M1. ms = (M0 @ [match_of t b]) @ M1"
      unfolding md by auto
    then have not_ui: "(length pre, t) \<notin> set ui" and
      tk: "take (Suc (length M0)) ms = M0 @ [match_of t b]"
      by (auto simp: ui n_def)
    from sel have pos: "0 < score t b" by (simp add: sel_iff)
    have in0: "(j, b) \<in> set ub0" using jb sel by (simp add: ub0_set sel_iff)
    have cand: "candidate t date_tol_days sim_threshold b"
      using inb sel by (simp add: candidate_def sel_iff)
    have mx: "\<forall>jb' \<in> set ub0. candidate t date_tol_days sim_threshold (snd jb') \<longrightarrow>
                    score t (snd jb') \<le> score t b"
    proof (intro ballI impI)
      fix jb' assume a: "jb' \<in> set ub0" "candidate t date_tol_days sim_threshold (snd jb')"
      show "score t (snd jb') \<le> score t b"
      proof (cases "0 < score t (snd jb')")
        case True
        with a have "jb' \<in> set (iterrows bank_df)" "in_buckets t (snd jb')"
          "selectable t U0 date_tol_days sim_threshold jb'"
          by (auto simp: ub0_set candidate_def sel_iff)
        with best show ?thesis by blast
      next
        case False
        with pos show ?thesis by simp
      qed
    qed
    have ex: "\<exists>jb \<in> set ub0. candidate t date_tol_days sim_threshold (snd jb) \<and>
                 0 < score t (snd jb) \<and>
                 (\<forall>jb' \<in> set ub0. candidate t date_tol_days sim_threshold (snd jb') \<longrightarrow>
                    score t (snd jb') \<le> score t (snd jb)) \<and>
                 take (Suc (length M0)) ms = M0 @ [match_of t (snd jb)]"
      using in0 cand pos mx tk by (intro bexI[of _ "(j, b)"]) simp_all
    then have ex': "\<exists>jb \<in> set ub0. candidate t date_tol_days sim_threshold (snd jb) \<and>
                    0 < score t (snd jb)"
      by blast
    from pre_run not_ui ex ex' show ?thesis by blast
  qed
qed

section \<open>Substrings under replace, split and join\<close>

lemma is_space_blank: "is_space CHR '' ''"
  by (simp add: is_space_def)

lemma char_lower_blank: "char_lower CHR '' '' = CHR '' ''"
  by (simp add: char_lower_def)

lemma char_lower_idem: "char_lower (char_lower c) = char_lower c"
proof -
  have "of_char (char_of (of_char c + 32 :: nat)) = ((of_char c + 32) mod 256 :: nat)"
    by simp
  moreover have "(of_char c :: nat) < 256" by simp
  ultimately show ?thesis
    unfolding char_lower_def Let_def
    by (auto simp del: of_char_of)
qed

lemma sublist_sep:
  assumes "c \<notin> set t" and "sublist t (xs @ c # ys)"
  shows "sublist t xs \<or> sublist t ys"
  using assms
proof (induction xs)
  case Nil
  then show ?case by (cases t) (auto simp: sublist_Cons_right)
next
  case (Cons x xs)
  from Cons.prems(2) consider "prefix t (x # xs @ c # ys)" | "sublist t (xs @ c # ys)"
    by (auto simp: sublist_Cons_right)
  then show ?case
  proof cases
    case 1
    then have "prefix t ((x # xs) @ c # ys)" by simp
    then consider "prefix t (x # xs)" | us where "t = (x # xs) @ us" "prefix us (c # ys)"
      unfolding prefix_append by blast
    then show ?thesis
    proof cases
      case 1
      then show ?thesis by blast
    next
      case 2
      with Cons.prems(1) have "us = []" by (cases us) auto
      with 2 show ?thesis by simp
    qed
  next
    case 2
    from Cons.IH[OF Cons.prems(1) this] show ?thesis
      by (auto simp: sublist_Cons_right)
  qed
qed

lemma str_replace_step:
  "str_replace (p # ps) new (c # cs) =
     (if prefix (p # ps) (c # cs)
      then new @ str_replace (p # ps) new (drop (length ps) cs)
      else c # str_replace (p # ps) new cs)"
  by simp

lemma str_replace_prefix:
  assumes "CHR '' '' \<notin> set t" and "prefix t (str_replace (p # ps) '' '' s)"
  shows "prefix t s"
  using assms
proof (induction s arbitrary: t)
  case Nil
  then show ?case by simp
next
  case (Cons c cs)
  show ?case
  proof (cases "prefix (p # ps) (c # cs)")
    case True
    with Cons.prems have "prefix t (CHR '' '' # str_replace (p # ps) '' '' (drop (length ps) cs))"
      by (simp only: str_replace_step if_True append_Cons append_Nil)
    with Cons.prems(1) show ?thesis by (cases t) auto
  next
    case False
    with Cons.prems have pr: "prefix t (c # str_replace (p # ps) '' '' cs)"
      by (simp only: str_replace_step if_False)
    show ?thesis
    proof (cases t)
      case Nil
      then show ?thesis by simp
    next
      case (Cons d t')
      with pr Cons.prems(1) have "d = c" "prefix t' (str_replace (p # ps) '' '' cs)"
        "CHR '' '' \<notin> set t'"
        by auto
      with Cons.IH[of t'] Cons show ?thesis by simp
    qed
  qed
qed

lemma str_replace_sublist:
  assumes "CHR '' '' \<notin> set t" and "sublist t (str_replace (p # ps) '' '' s)"
  shows "sublist t s"
  using assms
proof (induction "length s" arbitrary: s rule: less_induct)
  case less
  show ?case
  proof (cases s)
    case Nil
    with less.prems show ?thesis by simp
  next
    case (Cons c cs)
    show ?thesis
    proof (cases "prefix (p # ps) (c # cs)")
      case True
      with less.prems(2) have
        "sublist t (CHR '' '' # str_replace (p # ps) '' '' (drop (length ps) cs))"
        unfolding Cons by (simp only: str_replace_step if_True append_Cons append_Nil)
      then have
        "prefix t (CHR '' '' # str_replace (p # ps) '' '' (drop (length ps) cs)) \<or>
         sublist t (str_replace (p # ps) '' '' (drop (length ps) cs))"
        by (simp add: sublist_Cons_right)
      then show ?thesis
      proof
        assume "prefix t (CHR '' '' # str_replace (p # ps) '' '' (drop (length ps) cs))"
        with less.prems(1) have "t = []" by (cases t) auto
        then show ?thesis by simp
      next
        assume a: "sublist t (str_replace (p # ps) '' '' (drop (length ps) cs))"
        have "length (drop (length ps) cs) < length s" by (simp add: Cons)
        from less.hyps[OF this less.prems(1) a]
        have "sublist t (drop (length ps) cs)" .
        then have "sublist t cs"
          using sublist_drop sublist_order.order.trans by blast
        then show ?thesis by (simp add: Cons sublist_Cons_right)
      qed
    next
      case False
      with less.prems(2) have "sublist t (c # str_replace (p # ps) '' '' cs)"
        unfolding Cons by (simp only: str_replace_step if_False)
      then have
        "prefix t (c # str_replace (p # ps) '' '' cs) \<or>
         sublist t (str_replace (p # ps) '' '' cs)"
        by (simp add: sublist_Cons_right)
      then show ?thesis
      proof
        assume "prefix t (c # str_replace (p # ps) '' '' cs)"
        with False have "prefix t (str_replace (p # ps) '' '' (c # cs))"
          by (simp only: str_replace_step if_False)
        from str_replace_prefix[OF less.prems(1) this] show ?thesis
          unfolding Cons by blast
      next
        assume a: "sublist t (str_replace (p # ps) '' '' cs)"
        have "length cs < length s" by (simp add: Cons)
        from less.hyps[OF this less.prems(1) a] show ?thesis
          by (simp add: Cons sublist_Cons_right)
      qed
    qed
  qed
qed

lemma str_replace_absent:
  assumes "CHR '' '' \<notin> set (p # ps)"
  shows "\<not> sublist (p # ps) (str_replace (p # ps) '' '' s)"
proof (induction "length s" arbitrary: s rule: less_induct)
  case less
  show ?case
  proof (cases s)
    case Nil
    then show ?thesis by simp
  next
    case (Cons c cs)
    show ?thesis
    proof (cases "prefix (p # ps) (c # cs)")
      case True
      have "length (drop (length ps) cs) < length s" by (simp add: Cons)
      from less.hyps[OF this]
      have no: "\<not> sublist (p # ps) (str_replace (p # ps) '' '' (drop (length ps) cs))" .
      have "str_replace (p # ps) '' '' s =
          CHR '' '' # str_replace (p # ps) '' '' (drop (length ps) cs)"
        unfolding Cons using True
        by (simp only: str_replace_step if_True append_Cons append_Nil)
      moreover have "\<not> prefix (p # ps)
          (CHR '' '' # str_replace (p # ps) '' '' (drop (length ps) cs))"
        using assms by auto
      ultimately show ?thesis using no by (simp only: sublist_Cons_right) simp
    next
      case False
      have "length cs < length s" by (simp add: Cons)
      from less.hyps[OF this]
      have no: "\<not> sublist (p # ps) (str_replace (p # ps) '' '' cs)" .
      have np: "\<not> prefix (p # ps) (str_replace (p # ps) '' '' (c # cs))"
        using str_replace_prefix[OF assms] False by blast
      have e: "str_replace (p # ps) '' '' (c # cs) = c # str_replace (p # ps) '' '' cs"
        using False by (simp only: str_replace_step if_False)
      from np no show ?thesis
        unfolding Cons e by (simp only: sublist_Cons_right) simp
    qed
  qed
qed

lemma str_replace_id:
  assumes "\<not> sublist (p # ps) s"
  shows "str_replace (p # ps) new s = s"
  using assms
proof (induction s)
  case Nil
  then show ?case by simp
next
  case (Cons c cs)
  then have np: "\<not> prefix (p # ps) (c # cs)" and "\<not> sublist (p # ps) cs"
    by (auto simp: sublist_Cons_right)
  with Cons.IH have "str_replace (p # ps) new cs = cs" by blast
  with np show ?case by (simp only: str_replace_step if_False)
qed

lemma str_join_Cons:
  "str_join sep (w # ws) = (if ws = [] then w else w @ sep @ str_join sep ws)"
  by (cases ws) simp_all

lemma split_from_words:
  assumes "\<forall>c \<in> set w0. \<not> is_space c"
  shows "\<forall>w \<in> set (split_from w0 s). is_word w"
  using assms
proof (induction s arbitrary: w0)
  case Nil
  then show ?case by (simp add: is_word_def)
next
  case (Cons c cs)
  show ?case
  proof (cases "is_space c")
    case True
    have "\<forall>w \<in> set (split_from [] cs). is_word w" by (rule Cons.IH) simp
    with True Cons.prems show ?thesis by (simp add: is_word_def)
  next
    case False
    have "\<forall>w \<in> set (split_from (w0 @ [c]) cs). is_word w"
      by (rule Cons.IH) (use False Cons.prems in auto)
    with False show ?thesis by simp
  qed
qed

lemma split_from_append_word:
  assumes "\<forall>c \<in> set w. \<not> is_space c"
  shows "split_from w0 (w @ rest) = split_from (w0 @ w) rest"
  using assms by (induction w arbitrary: w0) simp_all

lemma split_join:
  assumes "\<forall>w \<in> set ws. is_word w"
  shows "str_split (str_join '' '' ws) = ws"
  using assms
proof (induction ws)
  case Nil
  then show ?case by (simp add: str_split_def)
next
  case (Cons w ws)
  then have w: "w \<noteq> []" "\<forall>c \<in> set w. \<not> is_space c" and IH: "split_from [] (str_join '' '' ws) = ws"
    by (simp_all add: is_word_def str_split_def)
  show ?case
  proof (cases "ws = []")
    case True
    have "split_from [] (w @ []) = split_from ([] @ w) []"
      by (rule split_from_append_word) (rule w(2))
    with w(1) True show ?thesis by (simp add: str_split_def)
  next
    case False
    have "split_from [] (w @ CHR '' '' # str_join '' '' ws) =
          split_from ([] @ w) (CHR '' '' # str_join '' '' ws)"
      by (rule split_from_append_word) (rule w(2))
    with w(1) False IH show ?thesis
      by (simp add: str_split_def str_join_Cons is_space_blank)
  qed
qed

lemma join_ends:
  assumes "\<forall>w \<in> set ws. is_word w" and "ws \<noteq> []"
  shows "str_join '' '' ws \<noteq> [] \<and> \<not> is_space (hd (str_join '' '' ws)) \<and>
         \<not> is_space (last (str_join '' '' ws))"
  using assms
proof (induction ws)
  case Nil
  then show ?case by simp
next
  case (Cons w ws)
  then have w: "w \<noteq> []" "\<forall>c \<in> set w. \<not> is_space c" by (simp_all add: is_word_def)
  show ?case
  proof (cases "ws = []")
    case True
    with w show ?thesis by (simp add: str_join_Cons)
  next
    case False
    with Cons have "str_join '' '' ws \<noteq> [] \<and> \<not> is_space (last (str_join '' '' ws))"
      by simp
    with w False show ?thesis by (simp add: str_join_Cons)
  qed
qed

lemma str_strip_id:
  assumes "s = [] \<or> (\<not> is_space (hd s) \<and> \<not> is_space (last s))"
  shows "str_strip s = s"
proof (cases "s = []")
  case True
  then show ?thesis by (simp add: str_strip_def)
next
  case False
  with assms have h: "\<not> is_space (hd s)" and l: "\<not> is_space (last s)" by auto
  from h False have "dropWhile is_space s = s" by (cases s) auto
  moreover from l False have "dropWhile is_space (rev s) = rev s"
    by (cases "rev s") (auto simp: last_rev hd_rev)
  ultimately show ?thesis by (simp add: str_strip_def)
qed

lemma strip_join:
  assumes "\<forall>w \<in> set ws. is_word w"
  shows "str_strip (str_join '' '' ws) = str_join '' '' ws"
proof (cases "ws = []")
  case True
  then show ?thesis by (simp add: str_strip_def)
next
  case False
  from join_ends[OF assms False] show ?thesis by (intro str_strip_id) simp
qed

lemma sublist_join_split:
  assumes "CHR '' '' \<notin> set t" and "sublist t (str_join '' '' (split_from w s))"
  shows "sublist t (w @ s)"
  using assms
proof (induction s arbitrary: w)
  case Nil
  then show ?case by (simp split: if_splits)
next
  case (Cons c cs)
  show ?case
  proof (cases "is_space c")
    case False
    with Cons.prems have "sublist t (str_join '' '' (split_from (w @ [c]) cs))" by simp
    from Cons.IH[OF Cons.prems(1) this] show ?thesis by simp
  next
    case True
    show ?thesis
    proof (cases "w = []")
      case True
      with \<open>is_space c\<close> Cons.prems have "sublist t (str_join '' '' (split_from [] cs))" by simp
      from Cons.IH[OF Cons.prems(1) this] True show ?thesis
        by (simp add: sublist_Cons_right)
    next
      case False
      with True Cons.prems(2)
      have j: "sublist t (str_join '' '' (w # split_from [] cs))" by simp
      have "sublist t w \<or> sublist t (str_join '' '' (split_from [] cs))"
      proof (cases "split_from [] cs = []")
        case True
        with j show ?thesis by simp
      next
        case False
        with j have "sublist t (w @ CHR '' '' # str_join '' '' (split_from [] cs))"
          by (simp add: str_join_Cons)
        from sublist_sep[OF Cons.prems(1) this] show ?thesis .
      qed
      then show ?thesis
      proof
        assume "sublist t w"
        moreover have "sublist w (w @ c # cs)" by (rule sublist_append_rightI)
        ultimately show ?thesis by (rule sublist_order.order.trans)
      next
        assume "sublist t (str_join '' '' (split_from [] cs))"
        from Cons.IH[OF Cons.prems(1) this] have "sublist t cs" by simp
        moreover have "sublist cs ((w @ [c]) @ cs)" by (rule sublist_append_leftI)
        ultimately have "sublist t ((w @ [c]) @ cs)" by (rule sublist_order.order.trans)
        then show ?thesis by simp
      qed
    qed
  qed
qed

lemma lowered_str_lower: "lowered (str_lower s)"
  by (simp add: lowered_def str_lower_def char_lower_idem)

lemma str_lower_id: "lowered s \<Longrightarrow> str_lower s = s"
  by (simp add: lowered_def str_lower_def map_idI)

lemma lowered_str_strip: "lowered s \<Longrightarrow> lowered (str_strip s)"
  by (auto simp: lowered_def str_strip_def dest!: set_dropWhileD)

lemma set_str_replace:
  "set (str_replace (p # ps) '' '' s) \<subseteq> insert CHR '' '' (set s)"
proof (induction "length s" arbitrary: s rule: less_induct)
  case less
  show ?case
  proof (cases s)
    case Nil
    then show ?thesis by simp
  next
    case (Cons c cs)
    show ?thesis
    proof (cases "prefix (p # ps) (c # cs)")
      case True
      have "length (drop (length ps) cs) < length s" by (simp add: Cons)
      from less.hyps[OF this]
      have "set (str_replace (p # ps) '' '' (drop (length ps) cs)) \<subseteq>
            insert CHR '' '' (set (drop (length ps) cs))" .
      moreover have "set (drop (length ps) cs) \<subseteq> set cs" by (rule set_drop_subset)
      moreover have "str_replace (p # ps) '' '' s =
          CHR '' '' # str_replace (p # ps) '' '' (drop (length ps) cs)"
        unfolding Cons using True
        by (simp only: str_replace_step if_True append_Cons append_Nil)
      ultimately show ?thesis by (auto simp: Cons)
    next
      case False
      have "length cs < length s" by (simp add: Cons)
      from less.hyps[OF this]
      have "set (str_replace (p # ps) '' '' cs) \<subseteq> insert CHR '' '' (set cs)" .
      moreover have "str_replace (p # ps) '' '' s = c # str_replace (p # ps) '' '' cs"
        unfolding Cons using False by (simp only: str_replace_step if_False)
      ultimately show ?thesis by (auto simp: Cons)
    qed
  qed
qed

lemma lowered_str_replace:
  assumes "lowered s" and "t \<noteq> []"
  shows "lowered (str_replace t '' '' s)"
proof -
  from assms(2) obtain p ps where t: "t = p # ps" by (cases t) auto
  from set_str_replace[of p ps s] assms(1) show ?thesis
    unfolding t lowered_def using char_lower_blank by auto
qed

lemma replace_tokens_snoc:
  "replace_tokens (toks @ [t]) s = str_replace t '' '' (replace_tokens toks s)"
  by (simp add: replace_tokens_def)

lemma replace_tokens_Cons:
  "replace_tokens (t # toks) s = replace_tokens toks (str_replace t '' '' s)"
  by (simp add: replace_tokens_def)

lemma lowered_replace_tokens:
  assumes "lowered s" and "\<forall>t \<in> set toks. t \<noteq> []"
  shows "lowered (replace_tokens toks s)"
  using assms
proof (induction toks arbitrary: s)
  case Nil
  then show ?case by (simp add: replace_tokens_def)
next
  case (Cons t toks)
  then show ?case by (simp add: replace_tokens_Cons lowered_str_replace)
qed

lemma replace_tokens_absent:
  assumes "\<forall>t \<in> set toks. t \<noteq> [] \<and> CHR '' '' \<notin> set t"
  shows "\<forall>t \<in> set toks. \<not> sublist t (replace_tokens toks s)"
  using assms
proof (induction toks rule: rev_induct)
  case Nil
  then show ?case by simp
next
  case (snoc u toks)
  from snoc.prems obtain p ps where u: "u = p # ps" and sf: "CHR '' '' \<notin> set (p # ps)"
    by (cases u) auto
  have last: "\<not> sublist u (replace_tokens (toks @ [u]) s)"
    unfolding replace_tokens_snoc u by (rule str_replace_absent[OF sf])
  have "\<not> sublist t (replace_tokens (toks @ [u]) s)" if t: "t \<in> set toks" for t
  proof
    assume a: "sublist t (replace_tokens (toks @ [u]) s)"
    from snoc.prems t have "CHR '' '' \<notin> set t" by simp
    from str_replace_sublist[OF this a[unfolded replace_tokens_snoc u]]
    have "sublist t (replace_tokens toks s)" .
    moreover from snoc.IH snoc.prems t have "\<not> sublist t (replace_tokens toks s)" by simp
    ultimately show False by simp
  qed
  with last show ?case by auto
qed

lemma replace_tokens_id:
  assumes "\<forall>t \<in> set toks. t \<noteq> [] \<and> \<not> sublist t s"
  shows "replace_tokens toks s = s"
  using assms
proof (induction toks)
  case Nil
  then show ?case by (simp add: replace_tokens_def)
next
  case (Cons t toks)
  then obtain p ps where t: "t = p # ps" by (cases t) auto
  from Cons.prems have "str_replace t '' '' s = s"
    unfolding t by (intro str_replace_id) simp
  with Cons show ?case by (simp add: replace_tokens_Cons)
qed

lemma set_join_split:
  "set (str_join '' '' (split_from w s)) \<subseteq> insert CHR '' '' (set w \<union> set s)"
proof (induction s arbitrary: w)
  case Nil
  then show ?case by auto
next
  case (Cons c cs)
  from Cons[of "[]"] Cons[of "w @ [c]"] show ?case
    by (auto simp: str_join_Cons split: if_splits)
qed

lemma stop_tokens_plain: "\<forall>t \<in> set stop_tokens. t \<noteq> [] \<and> CHR '' '' \<notin> set t"
  by (simp add: stop_tokens_def)

lemma normalize_text_fixed:
  assumes "r = normalize_text (Some s0)"
  shows "lowered r" and "\<forall>t \<in> set stop_tokens. \<not> sublist t r"
    and "\<exists>ws. (\<forall>w \<in> set ws. is_word w) \<and> r = str_join '' '' ws"
proof -
  define s2 where "s2 = replace_tokens stop_tokens (str_strip (str_lower s0))"
  have r: "r = str_join '' '' (split_from [] s2)"
    by (simp add: assms normalize_text_def s2_def Let_def str_split_def)
  have "lowered s2"
    unfolding s2_def
    by (intro lowered_replace_tokens lowered_str_strip lowered_str_lower)
       (use stop_tokens_plain in simp)
  with set_join_split[of "[]" s2] show "lowered r"
    unfolding r lowered_def using char_lower_blank by auto
  have ab: "\<forall>t \<in> set stop_tokens. \<not> sublist t s2"
    unfolding s2_def by (rule replace_tokens_absent[OF stop_tokens_plain])
  show "\<forall>t \<in> set stop_tokens. \<not> sublist t r"
  proof
    fix t assume t: "t \<in> set stop_tokens"
    with stop_tokens_plain have sf: "CHR '' '' \<notin> set t" by simp
    show "\<not> sublist t r"
    proof
      assume "sublist t r"
      from sublist_join_split[OF sf this[unfolded r]] ab t show False by simp
    qed
  qed
  have "\<forall>w \<in> set (split_from [] s2). is_word w" by (rule split_from_words) simp
  with r show "\<exists>ws. (\<forall>w \<in> set ws. is_word w) \<and> r = str_join '' '' ws" by blast
qed

section \<open>split and join as the collapse of whitespace runs\<close>

lemma split_from_trailing:
  assumes "\<forall>c \<in> set trail. is_space c"
  shows "split_from w (xs @ trail) = split_from w xs"
proof (induction xs arbitrary: w)
  case Nil
  have "split_from [] tr = []" if "\<forall>c \<in> set tr. is_space c" for tr
    using that by (induction tr) simp_all
  with assms show ?case by (cases trail) auto
next
  case (Cons x xs)
  then show ?case by simp
qed

lemma split_from_leading: "split_from [] (dropWhile is_space s) = split_from [] s"
  by (induction s) simp_all

lemma strip_decomp:
  "dropWhile is_space s = str_strip s @ rev (takeWhile is_space (rev (dropWhile is_space s)))"
proof -
  define u where "u = dropWhile is_space s"
  have "u = rev (dropWhile is_space (rev u)) @ rev (takeWhile is_space (rev u))"
    by (metis rev_append rev_rev_ident takeWhile_dropWhile_id)
  then show ?thesis unfolding str_strip_def u_def .
qed

lemma split_strip: "str_split (str_strip s) = str_split s"
proof -
  have "\<forall>c \<in> set (rev (takeWhile is_space (rev (dropWhile is_space s)))). is_space c"
    by (auto dest: set_takeWhileD)
  from split_from_trailing[OF this, of "[]" "str_strip s"]
  have "split_from [] (dropWhile is_space s) = split_from [] (str_strip s)"
    using strip_decomp[of s] by simp
  then show ?thesis by (simp add: str_split_def split_from_leading)
qed

lemma strip_ends:
  "str_strip s = [] \<or> (\<not> is_space (hd (str_strip s)) \<and> \<not> is_space (last (str_strip s)))"
proof (cases "str_strip s = []")
  case True
  then show ?thesis by simp
next
  case False
  define u where "u = dropWhile is_space s"
  define v where "v = dropWhile is_space (rev u)"
  have st: "str_strip s = rev v" by (simp add: str_strip_def u_def v_def)
  with False have v: "v \<noteq> []" by simp
  then have 1: "\<not> is_space (hd v)" unfolding v_def by (rule hd_dropWhile)
  from v have u: "u \<noteq> []" by (auto simp: v_def)
  then have hu: "\<not> is_space (hd u)" unfolding u_def by (rule hd_dropWhile)
  have "rev u = takeWhile is_space (rev u) @ v" by (simp add: v_def)
  with v have "last (rev u) = last v" by (metis last_appendR)
  with u have "last v = hd u" by (simp add: last_rev)
  with hu 1 v show ?thesis by (simp add: st hd_rev last_rev)
qed

lemma split_from_nonempty:
  "\<not> is_space c \<Longrightarrow> split_from w (c # cs) \<noteq> []"
proof (induction cs arbitrary: w c)
  case Nil
  then show ?case by simp
next
  case (Cons d cs)
  show ?case
  proof (cases "is_space d")
    case True
    with Cons.prems show ?thesis by simp
  next
    case False
    from Cons.IH[OF False, of "w @ [c]"] Cons.prems show ?thesis by simp
  qed
qed

lemma join_split_collapse:
  assumes "u = [] \<or> \<not> is_space (last u)"
    and "w = [] \<longrightarrow> u = [] \<or> \<not> is_space (hd u)"
  shows "str_join '' '' (split_from w u) = w @ collapse_runs u"
  using assms
proof (induction u arbitrary: w rule: collapse_runs.induct)
  case 1
  then show ?case by simp
next
  case (2 c)
  then show ?case by simp
next
  case (3 c d cs)
  from "3.prems"(1) have lst: "d # cs = [] \<or> \<not> is_space (last (d # cs))" by simp
  show ?case
  proof (cases "is_space c")
    case False
    have "str_join '' '' (split_from (w @ [c]) (d # cs)) = (w @ [c]) @ collapse_runs (d # cs)"
      by (rule "3.IH"(3)[OF False lst]) simp
    with False show ?thesis by simp
  next
    case True
    with "3.prems"(2) have w: "w \<noteq> []" by auto
    show ?thesis
    proof (cases "is_space d")
      case d: True
      have "str_join '' '' (split_from w (d # cs)) = w @ collapse_runs (d # cs)"
        by (rule "3.IH"(1)[OF True d lst]) (use w in simp)
      with True d w show ?thesis by simp
    next
      case d: False
      have "str_join '' '' (split_from [] (d # cs)) = [] @ collapse_runs (d # cs)"
        by (rule "3.IH"(2)[OF True d lst]) (use d in simp)
      moreover have "split_from [] (d # cs) \<noteq> []" using d by (rule split_from_nonempty)
      ultimately show ?thesis using True d w
        by (simp add: str_join_Cons del: split_from.simps(2))
           (simp add: str_join_Cons)
    qed
  qed
qed

lemma join_split_eq: "str_join '' '' (str_split s) = collapse_runs (str_strip s)"
proof -
  have "str_join '' '' (split_from [] (str_strip s)) = [] @ collapse_runs (str_strip s)"
    by (rule join_split_collapse) (use strip_ends[of s] in auto)
  then show ?thesis using split_strip[of s] by (simp add: str_split_def)
qed

section \<open>The claims\<close>

text \<open>
  C1. The claim: the computation of the score never raises a division error, for any
  amount of the internal transaction. The divisor of the source is \<open>int_amt + 1\<close>, not
  \<open>|int_amt| + 1\<close>: an internal transaction of amount -1 with one bank transaction to
  score makes \<open>reconcile\<close> raise \<open>ZeroDivisionError\<close>.
\<close>

theorem reconcile_amount_minus_one_raises:
  "reconcile
     [\<lparr>Date = 0, Amount = - 1, Vendor_clean = ''acme'', Transaction_ID = ''T1'',
       Vendor = Some ''Acme''\<rparr>]
     [\<lparr>Date = 0, Amount = 0, Vendor_clean = ''acme'', Bank_Ref = ''B1'',
       Vendor_Name = Some ''ACME''\<rparr>]
     2 50 (3 / 4) = Inl ZeroDivisionError"
  by code_simp

text \<open>
  C2. The claim: an internal transaction with a candidate that is not used yet, in the
  three buckets, within the date tolerance and at least as similar as the threshold, is
  matched. It fails for a candidate of score 0 or less, which never replaces the initial
  best score 0: the internal amount 1 against the bank amount 11 (same vendor, same
  date) has similarity 1 and score \<open>1 - (10 / 2) / 4 = - 1 / 4\<close>, and stays unmatched.
\<close>

theorem reconcile_unmatched_despite_candidate:
  "reconcile [] [far_bank] 2 50 (3 / 4) = Inr ([], [], [(0, far_bank)]) \<and>
   candidate small_internal 2 (3 / 4) far_bank \<and>
   reconcile [small_internal] [far_bank] 2 50 (3 / 4) =
     Inr ([], [(0, small_internal)], [(0, far_bank)])"
  by code_simp

text \<open>
  C2, amended. Let a run return for the internal transactions \<open>pre @ t # post\<close>, the
  amount of \<open>t\<close> not being negative. The bank transactions not used yet when \<open>t\<close> is
  processed are the unmatched bank rows of the run on \<open>pre\<close>. The score is the one of the
  specification, \<open>sim - (amtDiff / (|t.Amount| + 1)) * 0.25\<close>, in the arithmetic of floats.
  Then \<open>t\<close> is recorded unmatched exactly when none of these bank transactions is a
  candidate of positive score; and when \<open>t\<close> is not recorded unmatched, one of them that
  is a candidate of positive score, with the highest score among the candidates, is
  matched with \<open>t\<close>: its match record is the one appended after the matches of \<open>pre\<close>.
\<close>

theorem reconcile_unmatched_iff:
  assumes "reconcile (pre @ t # post) bank_df date_tol_days amount_tol sim_threshold =
             Inr (ms, ui, ub)"
    and "0 \<le> Amount t"
  shows "\<exists>ms0 ui0 ub0.
           reconcile pre bank_df date_tol_days amount_tol sim_threshold = Inr (ms0, ui0, ub0) \<and>
           ((length pre, t) \<in> set ui \<longleftrightarrow>
              \<not> (\<exists>jb \<in> set ub0. candidate t date_tol_days sim_threshold (snd jb) \<and>
                    0 < spec_score t (snd jb))) \<and>
           ((length pre, t) \<notin> set ui \<longrightarrow>
              (\<exists>jb \<in> set ub0. candidate t date_tol_days sim_threshold (snd jb) \<and>
                 0 < spec_score t (snd jb) \<and>
                 (\<forall>jb' \<in> set ub0. candidate t date_tol_days sim_threshold (snd jb') \<longrightarrow>
                    spec_score t (snd jb') \<le> spec_score t (snd jb)) \<and>
                 take (Suc (length ms0)) ms = ms0 @ [match_of t (snd jb)]))"
proof -
  from assms(2) have "spec_score t = score t"
    by (intro ext) (simp add: spec_score_def score_def)
  then show ?thesis
    using reconcile_prefix_unmatched[OF assms(1)] by simp
qed

theorem reconcile_unmatched_iff_witness:
  "reconcile ([] @ hd example_internal # tl example_internal) example_bank 2 50 (3 / 4) =
     Inr ([example_match], [(1, example_internal ! 1)], [(1, example_bank ! 1)]) \<and>
   0 \<le> Amount (hd example_internal) \<and>
   (length ([] :: internal_row list), hd example_internal) \<notin> set [(1, example_internal ! 1)] \<and>
   (\<exists>ms0 ui0 ub0.
      reconcile [] example_bank 2 50 (3 / 4) = Inr (ms0, ui0, ub0) \<and>
      (\<exists>jb \<in> set ub0. candidate (hd example_internal) 2 (3 / 4) (snd jb) \<and>
         0 < spec_score (hd example_internal) (snd jb) \<and>
         (\<forall>jb' \<in> set ub0. candidate (hd example_internal) 2 (3 / 4) (snd jb') \<longrightarrow>
            spec_score (hd example_internal) (snd jb') \<le> spec_score (hd example_internal) (snd jb)) \<and>
         take (Suc (length ms0)) [example_match] = ms0 @ [match_of (hd example_internal) (snd jb)]))"
proof -
  have e: "[] @ hd example_internal # tl example_internal = example_internal"
    by (simp add: example_internal_def)
  have h: "reconcile ([] @ hd example_internal # tl example_internal) example_bank 2 50 (3 / 4) =
     Inr ([example_match], [(1, example_internal ! 1)], [(1, example_bank ! 1)])"
    unfolding e by (rule example_run)
  have a: "0 \<le> Amount (hd example_internal)"
    by (simp add: example_internal_def)
  have n: "(length ([] :: internal_row list), hd example_internal) \<notin> set [(1, example_internal ! 1)]"
    by simp
  from reconcile_unmatched_iff[OF h a] n h a show ?thesis by blast
qed

text \<open>
  C3. The result of \<open>reconcile\<close> does not depend on \<open>amount_tol\<close>: two runs that differ
  in that argument only return the same matches, the same unmatched internal rows and
  the same unmatched bank rows (or raise the same error).
\<close>

theorem reconcile_amount_tol_inert:
  "reconcile internal_df bank_df date_tol_days a1 sim_threshold =
   reconcile internal_df bank_df date_tol_days a2 sim_threshold"
  by (simp add: reconcile_def)

text \<open>
  C4. In a run of \<open>reconcile\<close> that returns, every match record is the record of one
  pair of positions (internal, bank); no internal position and no bank position occurs
  in two of these pairs. So, where the transaction ids of the input are distinct, the
  ids of the matches are, and likewise for the bank references.
\<close>

theorem reconcile_matches_once:
  assumes "reconcile internal_df bank_df date_tol_days amount_tol sim_threshold = Inr (ms, ui, ub)"
  shows "(\<exists>ps. ms = map (\<lambda>(i, j). match_of (internal_df ! i) (bank_df ! j)) ps \<and>
            distinct (map fst ps) \<and> distinct (map snd ps) \<and>
            (\<forall>(i, j) \<in> set ps. i < length internal_df \<and> j < length bank_df)) \<and>
         (distinct (map Transaction_ID internal_df) \<longrightarrow> distinct (map Match_Transaction_ID ms)) \<and>
         (distinct (map Bank_Ref bank_df) \<longrightarrow> distinct (map Match_Bank_Ref ms))"
proof -
  from reconcile_trace[OF assms] obtain ps where
    ps: "ms = map (\<lambda>(i, j). match_of (internal_df ! i) (bank_df ! j)) ps"
      "distinct (map fst ps)" "distinct (map snd ps)"
      "\<forall>(i, j) \<in> set ps. i < length internal_df \<and> j < length bank_df \<and>
              \<bar>Date (internal_df ! i) - Date (bank_df ! j)\<bar> \<le> date_tol_days \<and>
              sim_threshold \<le> similarity (Vendor_clean (internal_df ! i)) (Vendor_clean (bank_df ! j)) \<and>
              0 < score (internal_df ! i) (bank_df ! j)"
    by blast
  from ps(4) have r: "set (map fst ps) \<subseteq> {0..<length internal_df}"
    "set (map snd ps) \<subseteq> {0..<length bank_df}"
    by auto
  have t: "map Match_Transaction_ID ms = map (\<lambda>i. Transaction_ID (internal_df ! i)) (map fst ps)"
    by (auto simp: ps(1) match_of_def)
  have b: "map Match_Bank_Ref ms = map (\<lambda>j. Bank_Ref (bank_df ! j)) (map snd ps)"
    by (auto simp: ps(1) match_of_def)
  have "\<exists>ps. ms = map (\<lambda>(i, j). match_of (internal_df ! i) (bank_df ! j)) ps \<and>
            distinct (map fst ps) \<and> distinct (map snd ps) \<and>
            (\<forall>(i, j) \<in> set ps. i < length internal_df \<and> j < length bank_df)"
    using ps by (intro exI[of _ ps]) auto
  moreover have "distinct (map Transaction_ID internal_df) \<longrightarrow> distinct (map Match_Transaction_ID ms)"
    unfolding t using distinct_map_nth[OF _ ps(2) r(1)] by blast
  moreover have "distinct (map Bank_Ref bank_df) \<longrightarrow> distinct (map Match_Bank_Ref ms)"
    unfolding b using distinct_map_nth[OF _ ps(3) r(2)] by blast
  ultimately show ?thesis by blast
qed

theorem reconcile_matches_once_witness:
  "reconcile example_internal example_bank 2 50 (3 / 4) =
     Inr ([example_match], [(1, example_internal ! 1)], [(1, example_bank ! 1)]) \<and>
   distinct (map Transaction_ID example_internal) \<and> distinct (map Bank_Ref example_bank) \<and>
   (\<exists>ps. [example_match] = map (\<lambda>(i, j). match_of (example_internal ! i) (example_bank ! j)) ps \<and>
      distinct (map fst ps) \<and> distinct (map snd ps) \<and>
      (\<forall>(i, j) \<in> set ps. i < length example_internal \<and> j < length example_bank)) \<and>
   distinct (map Match_Transaction_ID [example_match]) \<and>
   distinct (map Match_Bank_Ref [example_match])"
proof -
  note h = example_run
  have d: "distinct (map Transaction_ID example_internal)" "distinct (map Bank_Ref example_bank)"
    by (simp_all add: example_internal_def example_bank_def)
  from reconcile_matches_once[OF h] h d show ?thesis by simp
qed

text \<open>
  C5. In a run of \<open>reconcile\<close> that returns, the matches and the unmatched internal
  rows together are as many as the internal rows, and the matches and the unmatched
  bank rows together are as many as the bank rows.
\<close>

theorem reconcile_partitions:
  assumes "reconcile internal_df bank_df date_tol_days amount_tol sim_threshold = Inr (ms, ui, ub)"
  shows "length ms + length ui = length internal_df \<and> length ms + length ub = length bank_df"
proof -
  from reconcile_trace[OF assms] obtain ps where
    ps: "ms = map (\<lambda>(i, j). match_of (internal_df ! i) (bank_df ! j)) ps"
      "distinct (map fst ps)" "distinct (map snd ps)"
      "ui = map (\<lambda>i. (i, internal_df ! i))
              (filter (\<lambda>i. i \<notin> set (map fst ps)) [0..<length internal_df])"
      "ub = map (\<lambda>j. (j, bank_df ! j))
              (filter (\<lambda>j. j \<notin> set (map snd ps)) [0..<length bank_df])"
      "\<forall>(i, j) \<in> set ps. i < length internal_df \<and> j < length bank_df \<and>
              \<bar>Date (internal_df ! i) - Date (bank_df ! j)\<bar> \<le> date_tol_days \<and>
              sim_threshold \<le> similarity (Vendor_clean (internal_df ! i)) (Vendor_clean (bank_df ! j)) \<and>
              0 < score (internal_df ! i) (bank_df ! j)"
    by blast
  from ps(6) have "set (map fst ps) \<subseteq> {0..<length internal_df}"
    and "set (map snd ps) \<subseteq> {0..<length bank_df}"
    by auto
  from length_filter_notin[OF ps(2) this(1)] length_filter_notin[OF ps(3) this(2)]
  show ?thesis by (simp add: ps(1,4,5))
qed


theorem reconcile_partitions_witness:
  "reconcile example_internal example_bank 2 50 (3 / 4) =
     Inr ([example_match], [(1, example_internal ! 1)], [(1, example_bank ! 1)]) \<and>
   length [example_match] + length [(1 :: nat, example_internal ! 1)] = length example_internal \<and>
   length [example_match] + length [(1 :: nat, example_bank ! 1)] = length example_bank"
proof -
  note h = example_run
  from reconcile_partitions[OF h] h show ?thesis by simp
qed

text \<open>
  C6. The claim: every match record has a vendor similarity of at least the threshold,
  dates at most \<open>date_tol_days\<close> days apart, and an \<open>Amount_diff\<close> equal to the absolute
  difference of its two amounts. The source subtracts floats, so \<open>Amount_diff\<close> is the
  rounded difference: for the amounts 0.99 and 8.94 the record holds a number that is
  not the difference of the two amounts it holds.
\<close>

theorem reconcile_amount_diff_rounded:
  "reconcile [cents_internal] [cents_bank] 2 50 (3 / 4) =
     Inr ([match_of cents_internal cents_bank], [], []) \<and>
   Amount_diff (match_of cents_internal cents_bank) \<noteq>
     \<bar>Internal_Amount (match_of cents_internal cents_bank) -
      Bank_Amount (match_of cents_internal cents_bank)\<bar>"
  by code_simp

text \<open>
  C6, amended. Every match record has a vendor similarity of at least \<open>sim_threshold\<close>,
  dates at most \<open>date_tol_days\<close> days apart, and an \<open>Amount_diff\<close> that is the absolute
  value of the difference of its two amounts as the subtraction of floats gives it (the
  difference itself where that is a float), hence not negative.
\<close>

theorem reconcile_match_bounds:
  assumes "reconcile internal_df bank_df date_tol_days amount_tol sim_threshold = Inr (ms, ui, ub)"
  shows "\<forall>m \<in> set ms.
           sim_threshold \<le> Vendor_similarity m \<and>
           \<bar>Internal_Date m - Bank_Date m\<bar> \<le> date_tol_days \<and>
           Amount_diff m = \<bar>fsub (Internal_Amount m) (Bank_Amount m)\<bar> \<and>
           (float64 (Internal_Amount m - Bank_Amount m) = Internal_Amount m - Bank_Amount m \<longrightarrow>
              Amount_diff m = \<bar>Internal_Amount m - Bank_Amount m\<bar>) \<and>
           0 \<le> Amount_diff m"
proof -
  from reconcile_trace[OF assms] obtain ps where
    ps: "ms = map (\<lambda>(i, j). match_of (internal_df ! i) (bank_df ! j)) ps"
      "\<forall>(i, j) \<in> set ps. i < length internal_df \<and> j < length bank_df \<and>
              \<bar>Date (internal_df ! i) - Date (bank_df ! j)\<bar> \<le> date_tol_days \<and>
              sim_threshold \<le> similarity (Vendor_clean (internal_df ! i)) (Vendor_clean (bank_df ! j)) \<and>
              0 < score (internal_df ! i) (bank_df ! j)"
    by blast
  show ?thesis
  proof
    fix m assume "m \<in> set ms"
    with ps(1) obtain i j where ij: "(i, j) \<in> set ps" and m: "m = match_of (internal_df ! i) (bank_df ! j)"
      by auto
    from ps(2) ij have "\<bar>Date (internal_df ! i) - Date (bank_df ! j)\<bar> \<le> date_tol_days \<and>
              sim_threshold \<le> similarity (Vendor_clean (internal_df ! i)) (Vendor_clean (bank_df ! j))"
      by auto
    then show "sim_threshold \<le> Vendor_similarity m \<and>
           \<bar>Internal_Date m - Bank_Date m\<bar> \<le> date_tol_days \<and>
           Amount_diff m = \<bar>fsub (Internal_Amount m) (Bank_Amount m)\<bar> \<and>
           (float64 (Internal_Amount m - Bank_Amount m) = Internal_Amount m - Bank_Amount m \<longrightarrow>
              Amount_diff m = \<bar>Internal_Amount m - Bank_Amount m\<bar>) \<and>
           0 \<le> Amount_diff m"
      by (simp add: m match_of_def fsub_def)
  qed
qed

theorem reconcile_match_bounds_witness:
  "reconcile example_internal example_bank 2 50 (3 / 4) =
     Inr ([example_match], [(1, example_internal ! 1)], [(1, example_bank ! 1)]) \<and>
   example_match \<in> set [example_match] \<and>
   float64 (Internal_Amount example_match - Bank_Amount example_match) =
     Internal_Amount example_match - Bank_Amount example_match \<and>
   (3 / 4 :: rat) \<le> Vendor_similarity example_match \<and>
   \<bar>Internal_Date example_match - Bank_Date example_match\<bar> \<le> (2 :: int) \<and>
   Amount_diff example_match =
     \<bar>fsub (Internal_Amount example_match) (Bank_Amount example_match)\<bar> \<and>
   Amount_diff example_match = \<bar>Internal_Amount example_match - Bank_Amount example_match\<bar> \<and>
   0 \<le> Amount_diff example_match"
proof -
  note h = example_run
  have r: "float64 (Internal_Amount example_match - Bank_Amount example_match) =
     Internal_Amount example_match - Bank_Amount example_match"
    by (simp add: example_match_def float64_def)
  from reconcile_match_bounds[OF h] h r show ?thesis by simp
qed

text \<open>
  C7. The claim: \<open>normalize_text\<close> maps a missing input to the empty string and any other
  input to its lowercased, trimmed form with the stop tokens removed and the runs of
  whitespace collapsed. The source replaces every occurrence of a stop token by a space
  and does not delete it: \<open>a.b\<close> becomes \<open>a b\<close>, where the removal of the period gives
  \<open>ab\<close>.
\<close>

theorem normalize_text_keeps_separator:
  "normalize_text (Some ''a.b'') = ''a b'' \<and> normalize_text_spec (Some ''a.b'') = ''ab''"
  by code_simp

text \<open>
  C7, amended. \<open>normalize_text\<close> maps a missing input to the empty string, and any other
  input to its lowercased, trimmed form in which every occurrence of the stop tokens, taken
  in their order as plain substrings, is replaced by one space, trimmed again and with
  every run of whitespace collapsed to a single space. No stop token occurs in the
  result.
\<close>

theorem normalize_text_replaces:
  "normalize_text None = [] \<and>
   normalize_text (Some s) =
     collapse_runs (str_strip (replace_tokens stop_tokens (str_strip (str_lower s)))) \<and>
   (\<forall>t \<in> set stop_tokens. \<not> sublist t (normalize_text (Some s)))"
proof -
  have "normalize_text None = []" by (simp add: normalize_text_def)
  moreover have "normalize_text (Some s) =
     collapse_runs (str_strip (replace_tokens stop_tokens (str_strip (str_lower s))))"
    by (simp add: normalize_text_def Let_def join_split_eq)
  moreover have "\<forall>t \<in> set stop_tokens. \<not> sublist t (normalize_text (Some s))"
    by (rule normalize_text_fixed(2)) (rule refl)
  ultimately show ?thesis by blast
qed

theorem normalize_text_replaces_witness:
  "''ltd'' \<in> set stop_tokens \<and>
   normalize_text (Some ''Acme  Ltd.'') = ''acme'' \<and>
   normalize_text None = [] \<and>
   normalize_text (Some ''Acme  Ltd.'') =
     collapse_runs (str_strip (replace_tokens stop_tokens (str_strip (str_lower ''Acme  Ltd.'')))) \<and>
   \<not> sublist ''ltd'' (normalize_text (Some ''Acme  Ltd.''))"
proof -
  have "''ltd'' \<in> set stop_tokens" by (simp add: stop_tokens_def)
  moreover have "normalize_text (Some ''Acme  Ltd.'') = ''acme''" by code_simp
  ultimately show ?thesis using normalize_text_replaces [of "''Acme  Ltd.''"] by blast
qed

text \<open>
  C8. The claim: every match record has a score \<open>sim - (amtDiff / (t.Amount + 1)) * 0.25\<close>
  above 0. The source computes and compares the score in floats. For the amounts 1.03
  and 7.99 and a similarity of 6 / 7 the score of the source is \<open>2 ^ - 53\<close> and the pair
  is matched, where the same expression over the exact numbers that the record holds is
  not above 0.
\<close>

theorem reconcile_exact_score_not_positive:
  "reconcile [rounding_internal] [rounding_bank] 2 50 (3 / 4) =
     Inr ([match_of rounding_internal rounding_bank], [], []) \<and>
   \<not> 0 < Vendor_similarity (match_of rounding_internal rounding_bank) -
           (Amount_diff (match_of rounding_internal rounding_bank) /
            (Internal_Amount (match_of rounding_internal rounding_bank) + 1)) * (1 / 4)"
  by code_simp

text \<open>
  C8, amended. Every match record has a score above 0, the score being computed from the
  record's own fields in the arithmetic of floats, as the loop does: similarity minus
  the product of 0.25 and the quotient of the amount difference by the internal amount
  plus 1. A candidate whose score in floats is 0 or less is never selected.
\<close>

theorem reconcile_score_positive:
  assumes "reconcile internal_df bank_df date_tol_days amount_tol sim_threshold = Inr (ms, ui, ub)"
  shows "\<forall>m \<in> set ms.
           0 < fsub (Vendor_similarity m)
                 (fmul (fdiv (Amount_diff m) (fadd (Internal_Amount m) 1)) (1 / 4))"
proof -
  from reconcile_trace[OF assms] obtain ps where
    ps: "ms = map (\<lambda>(i, j). match_of (internal_df ! i) (bank_df ! j)) ps"
      "\<forall>(i, j) \<in> set ps. i < length internal_df \<and> j < length bank_df \<and>
              \<bar>Date (internal_df ! i) - Date (bank_df ! j)\<bar> \<le> date_tol_days \<and>
              sim_threshold \<le> similarity (Vendor_clean (internal_df ! i)) (Vendor_clean (bank_df ! j)) \<and>
              0 < score (internal_df ! i) (bank_df ! j)"
    by blast
  show ?thesis
  proof
    fix m assume "m \<in> set ms"
    with ps(1) obtain i j where ij: "(i, j) \<in> set ps" and m: "m = match_of (internal_df ! i) (bank_df ! j)"
      by auto
    from ps(2) ij have "0 < score (internal_df ! i) (bank_df ! j)"
      by auto
    then show "0 < fsub (Vendor_similarity m)
                 (fmul (fdiv (Amount_diff m) (fadd (Internal_Amount m) 1)) (1 / 4))"
      by (simp add: m match_of_def score_def)
  qed
qed

theorem reconcile_score_positive_witness:
  "reconcile example_internal example_bank 2 50 (3 / 4) =
     Inr ([example_match], [(1, example_internal ! 1)], [(1, example_bank ! 1)]) \<and>
   example_match \<in> set [example_match] \<and>
   0 < fsub (Vendor_similarity example_match)
         (fmul (fdiv (Amount_diff example_match) (fadd (Internal_Amount example_match) 1)) (1 / 4))"
proof -
  note h = example_run
  from reconcile_score_positive[OF h] h show ?thesis by simp
qed

text \<open>
  C9. \<open>similarity\<close> of two empty strings is 1. A missing vendor name is normalised to
  the empty string, so two transactions without a vendor name have similarity 1, which
  meets every threshold up to 1.
\<close>

theorem similarity_missing_vendors:
  assumes "sim_threshold \<le> 1"
  shows "similarity [] [] = 1 \<and>
         similarity (normalize_text None) (normalize_text None) = 1 \<and>
         sim_threshold \<le> similarity (normalize_text None) (normalize_text None)"
  using assms by (simp add: similarity_def ratio_def normalize_text_def)

theorem similarity_missing_vendors_witness:
  "(3 / 4 :: rat) \<le> 1 \<and> similarity [] [] = 1 \<and>
   similarity (normalize_text None) (normalize_text None) = 1 \<and>
   (3 / 4 :: rat) \<le> similarity (normalize_text None) (normalize_text None)"
  using similarity_missing_vendors [of "3 / 4"] by simp

text \<open>
  C10. \<open>normalize_text\<close> is idempotent: normalising its own result gives that result
  again, for every text and for the missing input.
\<close>

theorem normalize_text_idempotent:
  "normalize_text (Some (normalize_text x)) = normalize_text x"
proof (cases x)
  case None
  then show ?thesis
    by (simp add: normalize_text_def str_strip_def str_lower_def replace_tokens_def
        stop_tokens_def str_split_def)
next
  case (Some s0)
  define r where "r = normalize_text (Some s0)"
  from normalize_text_fixed[OF r_def] obtain ws where
    low: "lowered r" and ab: "\<forall>t \<in> set stop_tokens. \<not> sublist t r"
    and ws: "\<forall>w \<in> set ws. is_word w" and r: "r = str_join '' '' ws"
    by blast
  have 1: "str_lower r = r" using low by (rule str_lower_id)
  have 2: "str_strip r = r" unfolding r using ws by (rule strip_join)
  have 3: "replace_tokens stop_tokens r = r"
    by (rule replace_tokens_id) (use ab stop_tokens_plain in simp)
  have 4: "str_join '' '' (str_split r) = r"
    unfolding r using ws by (simp add: split_join)
  have "normalize_text (Some r) = r"
    by (simp add: normalize_text_def Let_def 1 2 3 4)
  then show ?thesis by (simp add: Some r_def)
qed

end
